theory Spec2Isabelle
  imports Complex_Main "HOL-Library.Log_Nat"
begin

section \<open>The circuit breaker of src/circuitBreaker.js\<close>

text \<open>
  The breaker object of \<^verbatim>\<open>circuitBreaker.js\<close> as a record, its methods as functions from
  the object (and the invocation status they close over) to the updated object. Private
  methods keep their names without the leading underscore. The conventions:

  \<^item> \<^verbatim>\<open>this.state\<close> and \<^verbatim>\<open>this.forced\<close> hold JavaScript values: a number of the
    \<^verbatim>\<open>STATE\<close> enumeration, \<^verbatim>\<open>undefined\<close> (a field never assigned) or \<^verbatim>\<open>null\<close>.
  \<^item> A numeric option, and the timeout argument of \<^verbatim>\<open>run\<close>, is any JavaScript value. The
    source asks three built-in questions of it, \<^verbatim>\<open>isNaN(x)\<close>, \<^verbatim>\<open>0 < x\<close> and
    \<^verbatim>\<open>parseInt(x, 10)\<close>; the model takes the value as the three answers (\<open>jsarg\<close>). The
    parsed number is \<^verbatim>\<open>NaN\<close>, an integer or an infinity (\<open>jsnum\<close>).
  \<^item> The counters are naturals; a double counts exactly up to \<open>2^53\<close>.
    \<^verbatim>\<open>percent\<close> is a double: the model holds its exact value as a rational, and
    \<^verbatim>\<open>/\<close> and \<^verbatim>\<open>*\<close> round the exact result to the nearest double, ties to even
    (\<open>round_double\<close>, for results below the overflow threshold).
  \<^item> A \<^verbatim>\<open>TypeError\<close> of the source (a property access on \<^verbatim>\<open>undefined\<close> when the
    bucket array is empty) is a result \<open>Some TypeError\<close>, returned with the object as the
    throw leaves it.
  \<^item> The callbacks \<^verbatim>\<open>onopen\<close>, \<^verbatim>\<open>onclose\<close>, the fallback and the command are the
    caller's code: each returns or throws, and none calls back into the breaker. The
    model records each invocation of them in the object (\<open>onopen_calls\<close>,
    \<open>onclose_calls\<close>, \<open>fallback_calls\<close>, \<open>command_calls\<close>).
  \<^item> \<^verbatim>\<open>setTimeout\<close> and \<^verbatim>\<open>clearTimeout\<close> act on the list \<open>live_timers\<close> of the handles
    that are pending; a timer that fires is an action of the environment, at any time:
    the delays are not modelled.
\<close>

subsection \<open>Values, enumerations, buckets\<close>

datatype jsval = JUndefined | JNull | JNum nat

abbreviation STATE_OPEN :: jsval where "STATE_OPEN \<equiv> JNum 0"
abbreviation STATE_HALF_OPEN :: jsval where "STATE_HALF_OPEN \<equiv> JNum 1"
abbreviation STATE_CLOSED :: jsval where "STATE_CLOSED \<equiv> JNum 2"

text \<open>\<^verbatim>\<open>===\<close> and \<^verbatim>\<open>==\<close> on these values.\<close>

definition strict_eq :: "jsval \<Rightarrow> jsval \<Rightarrow> bool" where
  "strict_eq a b = (a = b)"

fun loose_eq :: "jsval \<Rightarrow> jsval \<Rightarrow> bool" where
  "loose_eq JUndefined JNull = True"
| "loose_eq JNull JUndefined = True"
| "loose_eq a b = (a = b)"

datatype MEASURE = FAILURE | SUCCESS | TIMEOUT | OUTAGE

datatype exn = TypeError | UserError

record bucket =
  failure :: nat
  success :: nat
  timeout :: nat
  outage :: nat

definition createBucket :: bucket where
  "createBucket = \<lparr>failure = 0, success = 0, timeout = 0, outage = 0\<rparr>"

text \<open>\<^verbatim>\<open>bucket[prop]\<close> and \<^verbatim>\<open>bucket[prop]++\<close>.\<close>

fun prop_get :: "bucket \<Rightarrow> MEASURE \<Rightarrow> nat" where
  "prop_get bk FAILURE = failure bk"
| "prop_get bk SUCCESS = success bk"
| "prop_get bk TIMEOUT = timeout bk"
| "prop_get bk OUTAGE = outage bk"

fun prop_incr :: "MEASURE \<Rightarrow> bucket \<Rightarrow> bucket" where
  "prop_incr FAILURE bk = bk\<lparr>failure := failure bk + 1\<rparr>"
| "prop_incr SUCCESS bk = bk\<lparr>success := success bk + 1\<rparr>"
| "prop_incr TIMEOUT bk = bk\<lparr>timeout := timeout bk + 1\<rparr>"
| "prop_incr OUTAGE bk = bk\<lparr>outage := outage bk + 1\<rparr>"

record metrics =
  total_m :: nat
  error_m :: nat
  percent_m :: rat

subsection \<open>Numbers\<close>

text \<open>
  What \<^verbatim>\<open>parseInt\<close> returns, and the comparisons the source makes with it: a count or
  a percentage on the left of \<^verbatim>\<open>>\<close>, 0 on the left of \<^verbatim>\<open><\<close>. Every comparison with
  \<^verbatim>\<open>NaN\<close> is false.
\<close>

datatype jsnum = NaN | Fin int | PosInfinity | NegInfinity

fun nat_gt :: "nat \<Rightarrow> jsnum \<Rightarrow> bool" where
  "nat_gt k NaN = False"
| "nat_gt k (Fin i) = (i < int k)"
| "nat_gt k PosInfinity = False"
| "nat_gt k NegInfinity = True"

fun rat_gt :: "rat \<Rightarrow> jsnum \<Rightarrow> bool" where
  "rat_gt x NaN = False"
| "rat_gt x (Fin i) = (of_int i < x)"
| "rat_gt x PosInfinity = False"
| "rat_gt x NegInfinity = True"

fun num_pos :: "jsnum \<Rightarrow> bool" where
  "num_pos NaN = False"
| "num_pos (Fin i) = (0 < i)"
| "num_pos PosInfinity = True"
| "num_pos NegInfinity = False"

text \<open>
  A JavaScript value as the source sees it: the answers of \<^verbatim>\<open>isNaN(x)\<close>, \<^verbatim>\<open>0 < x\<close> and
  \<^verbatim>\<open>parseInt(x, 10)\<close>.
\<close>

record jsarg =
  arg_isNaN :: bool
  arg_positive :: bool
  arg_parseInt :: jsnum

text \<open>\<^verbatim>\<open>!isNaN(x) && 0 < x ? parseInt(x, 10) : d\<close>, the expression of every numeric option
  and of the timeout argument of \<^verbatim>\<open>_execute\<close>.\<close>

definition positive_or :: "jsarg \<Rightarrow> jsnum \<Rightarrow> jsnum" where
  "positive_or x d = (if \<not> arg_isNaN x \<and> arg_positive x then arg_parseInt x else d)"

text \<open>
  Doubles. \<open>ilog2 x\<close> is the exponent of the binade of a positive \<open>x\<close>,
  \<open>ulp_exponent\<close> that of the spacing of the doubles there (53 significant bits, the
  subnormals from \<open>2^-1022\<close> down), and \<open>round_double\<close> the nearest double, ties to the
  even significand. \<^verbatim>\<open>x / y\<close> and \<^verbatim>\<open>x * y\<close> on finite doubles with \<open>y \<noteq> 0\<close> are the
  exact results rounded.
\<close>

definition ilog2 :: "rat \<Rightarrow> int" where
  "ilog2 x =
     (case quotient_of x of
        (p, q) \<Rightarrow>
          (let c = bitlen p - bitlen q
           in if 2 powi c \<le> x then c else c - 1))"

definition round_half_even :: "rat \<Rightarrow> int" where
  "round_half_even k =
     (let f = \<lfloor>k\<rfloor>; r = k - of_int f
      in if r < 1 / 2 then f else if 1 / 2 < r then f + 1 else if even f then f else f + 1)"

definition ulp_exponent :: "rat \<Rightarrow> int" where
  "ulp_exponent x = max (ilog2 x) (- 1022) - 52"

definition round_double :: "rat \<Rightarrow> rat" where
  "round_double x =
     (if x = 0 then 0
      else sgn x * of_int (round_half_even (\<bar>x\<bar> / 2 powi ulp_exponent \<bar>x\<bar>))
             * 2 powi ulp_exponent \<bar>x\<bar>)"

definition js_divide :: "rat \<Rightarrow> rat \<Rightarrow> rat" where
  "js_divide x y = round_double (x / y)"

definition js_times :: "rat \<Rightarrow> rat \<Rightarrow> rat" where
  "js_times x y = round_double (x * y)"

subsection \<open>The breaker object and the invocation status\<close>

text \<open>A state callback of the caller: whether it throws when invoked.\<close>

datatype callback = Callback (callback_throws: bool)

record status =
  status_done :: bool
  status_timeout :: "nat option"
  status_timer :: "nat option"

record breaker =
  initialized :: bool
  slidingTimeWindow :: jsnum
  bucketsNumber :: jsnum
  tolerance :: jsnum
  calibration :: jsnum
  cb_timeout :: jsnum
  onopen :: callback
  onclose :: callback
  buckets :: "bucket list"
  state :: jsval
  forced :: jsval
  bucketIndex :: nat
  slide :: "jsnum \<times> jsnum"
  timer :: "nat option"
  live_timers :: "nat list"
  next_handle :: nat
  onopen_calls :: "metrics list"
  onclose_calls :: "metrics list"
  fallback_calls :: nat
  command_calls :: nat

text \<open>
  The options object. \<open>opt_onopen\<close> and \<open>opt_onclose\<close> are \<open>None\<close> when the option is
  not a function.
\<close>

record options =
  opt_slidingTimeWindow :: jsarg
  opt_bucketsNumber :: jsarg
  opt_tolerance :: jsarg
  opt_calibration :: jsarg
  opt_timeout :: jsarg
  opt_onopen :: "callback option"
  opt_onclose :: "callback option"

subsection \<open>Timers\<close>

definition setTimeout :: "breaker \<Rightarrow> nat \<times> breaker" where
  "setTimeout b =
     (next_handle b,
      b\<lparr>live_timers := live_timers b @ [next_handle b], next_handle := next_handle b + 1\<rparr>)"

definition clearTimeout :: "nat \<Rightarrow> breaker \<Rightarrow> breaker" where
  "clearTimeout h b = b\<lparr>live_timers := removeAll h (live_timers b)\<rparr>"

subsection \<open>Public queries\<close>

definition isOpen :: "breaker \<Rightarrow> bool" where
  "isOpen b = strict_eq STATE_OPEN (state b)"

text \<open>The loop of \<^verbatim>\<open>calculate\<close>, with its two accumulators.\<close>

fun calculate_loop :: "bucket list \<Rightarrow> nat \<Rightarrow> nat \<Rightarrow> nat \<times> nat" where
  "calculate_loop [] tot err = (tot, err)"
| "calculate_loop (bk # rest) tot err =
     (let errors = prop_get bk FAILURE + prop_get bk TIMEOUT;
          totals = errors + prop_get bk SUCCESS
      in calculate_loop rest (tot + totals) (err + errors))"

definition calculate :: "breaker \<Rightarrow> metrics" where
  "calculate b =
     (case calculate_loop (buckets b) 0 0 of
        (tot, err) \<Rightarrow>
          \<lparr>total_m = tot, error_m = err,
           percent_m = js_times (js_divide (of_nat err) (of_nat (if tot > 0 then tot else 1))) 100\<rparr>)"

subsection \<open>Manual override\<close>

definition open_cb :: "breaker \<Rightarrow> breaker" where
  "open_cb b = b\<lparr>forced := state b, state := STATE_OPEN\<rparr>"

definition close_cb :: "breaker \<Rightarrow> breaker" where
  "close_cb b = b\<lparr>forced := state b, state := STATE_CLOSED\<rparr>"

definition reset :: "breaker \<Rightarrow> breaker" where
  "reset b = b\<lparr>state := forced b, forced := JNull\<rparr>"

subsection \<open>The window of buckets\<close>

text \<open>\<^verbatim>\<open>this.buckets[this.buckets.length - 1]\<close>: \<^verbatim>\<open>undefined\<close> on an empty array.\<close>

definition getLastBucket :: "breaker \<Rightarrow> bucket option" where
  "getLastBucket b = (if buckets b = [] then None else Some (last (buckets b)))"

text \<open>\<^verbatim>\<open>bucket[prop]++\<close> on the last bucket, which the array shares.\<close>

definition incr_last :: "MEASURE \<Rightarrow> bucket list \<Rightarrow> bucket list" where
  "incr_last prop bs = butlast bs @ [prop_incr prop (last bs)]"

definition createNextSlidingBucket :: "breaker \<Rightarrow> breaker" where
  "createNextSlidingBucket b =
     (let b1 = (if nat_gt (length (buckets b)) (bucketsNumber b)
                then b\<lparr>buckets := tl (buckets b)\<rparr> else b);
          b2 = b1\<lparr>bucketIndex := bucketIndex b1 + 1\<rparr>;
          b3 = b2\<lparr>buckets := buckets b2 @ [createBucket]\<rparr>
      in if nat_gt (length (buckets b3)) (bucketsNumber b3)
         then b3\<lparr>buckets := tl (buckets b3)\<rparr> else b3)"

definition tick :: "breaker \<Rightarrow> breaker" where
  "tick b =
     (let b1 = (case timer b of Some h \<Rightarrow> clearTimeout h b | None \<Rightarrow> b);
          b2 = createNextSlidingBucket b1;
          b3 = (if nat_gt (bucketIndex b2) (bucketsNumber b2)
                then (let b' = b2\<lparr>bucketIndex := 0\<rparr>
                      in if isOpen b' then b'\<lparr>state := STATE_HALF_OPEN\<rparr> else b')
                else b2)
      in case setTimeout b3 of (h, b4) \<Rightarrow> b4\<lparr>timer := Some h\<rparr>)"

text \<open>
  \<^verbatim>\<open>this.slide\<close> is the quotient of the window by the bucket count, a double that is
  only the delay of the rotation timer; the model keeps its two operands.
\<close>

definition startTicking :: "breaker \<Rightarrow> breaker" where
  "startTicking b =
     (let b1 = b\<lparr>bucketIndex := 0, slide := (slidingTimeWindow b, bucketsNumber b)\<rparr>;
          b2 = (case timer b1 of Some h \<Rightarrow> clearTimeout h b1 | None \<Rightarrow> b1)
      in case setTimeout b2 of (h, b3) \<Rightarrow> b3\<lparr>timer := Some h\<rparr>)"

subsection \<open>Construction\<close>

definition initialize :: "options \<Rightarrow> breaker \<Rightarrow> breaker" where
  "initialize opts b =
     (if \<not> initialized b then
        startTicking
          (b\<lparr>slidingTimeWindow := positive_or (opt_slidingTimeWindow opts) (Fin 30000),
             bucketsNumber := positive_or (opt_bucketsNumber opts) (Fin 10),
             tolerance := positive_or (opt_tolerance opts) (Fin 50),
             calibration := positive_or (opt_calibration opts) (Fin 5),
             cb_timeout := positive_or (opt_timeout opts) (Fin 0),
             onopen := (case opt_onopen opts of Some f \<Rightarrow> f | None \<Rightarrow> Callback False),
             onclose := (case opt_onclose opts of Some f \<Rightarrow> f | None \<Rightarrow> Callback False),
             buckets := [createBucket],
             state := STATE_CLOSED,
             initialized := True\<rparr>)
      else b)"

text \<open>
  The object \<^verbatim>\<open>new\<close> hands to the constructor: no field assigned yet. The configuration
  fields and the bucket array carry placeholders that \<open>initialize\<close> overwrites;
  \<open>forced\<close>, which \<open>initialize\<close> does not assign, stays \<^verbatim>\<open>undefined\<close>. Timer handles are
  positive.
\<close>

definition fresh_object :: breaker where
  "fresh_object =
     \<lparr>initialized = False, slidingTimeWindow = NaN, bucketsNumber = NaN, tolerance = NaN,
      calibration = NaN, cb_timeout = NaN, onopen = Callback False, onclose = Callback False,
      buckets = [], state = JUndefined, forced = JUndefined,
      bucketIndex = 0, slide = (NaN, NaN), timer = None, live_timers = [], next_handle = 1,
      onopen_calls = [], onclose_calls = [], fallback_calls = 0, command_calls = 0\<rparr>"

definition CircuitBreaker :: "options \<Rightarrow> breaker" where
  "CircuitBreaker opts = initialize opts fresh_object"

subsection \<open>State evaluation and measurements\<close>

text \<open>
  \<^verbatim>\<open>this.onclose(metrics)\<close> and \<^verbatim>\<open>this.onopen(metrics)\<close> come after the assignment of
  the state; an exception of theirs leaves \<^verbatim>\<open>_updateState\<close> with the state assigned.
\<close>

definition updateState :: "breaker \<Rightarrow> exn option \<times> breaker" where
  "updateState b =
     (let metrics = calculate b in
      if loose_eq (state b) STATE_HALF_OPEN then
        (case getLastBucket b of
           None \<Rightarrow> (Some TypeError, b)
         | Some bk \<Rightarrow>
             (let lastCommandFailed = (prop_get bk SUCCESS = 0 \<and> 0 < error_m metrics) in
              if lastCommandFailed then (None, b\<lparr>state := STATE_OPEN\<rparr>)
              else (if callback_throws (onclose b) then Some UserError else None,
                    b\<lparr>state := STATE_CLOSED, onclose_calls := onclose_calls b @ [metrics]\<rparr>)))
      else
        (let toleranceDeviation = rat_gt (percent_m metrics) (tolerance b);
             calibrationDeviation = nat_gt (total_m metrics) (calibration b);
             deviation = (calibrationDeviation \<and> toleranceDeviation) in
         if deviation
         then (if callback_throws (onopen b) then Some UserError else None,
               b\<lparr>state := STATE_OPEN, onopen_calls := onopen_calls b @ [metrics]\<rparr>)
         else (None, b)))"

text \<open>
  The closure \<^verbatim>\<open>_measure(prop, status)\<close> returns, applied to the status it closes over
  and to the object at the time of the call.
\<close>

definition measure_cb :: "MEASURE \<Rightarrow> status \<Rightarrow> breaker \<Rightarrow> exn option \<times> status \<times> breaker" where
  "measure_cb prop st b =
     (if status_done st then (None, st, b)
      else
        (case (case status_timeout st of
                 Some h \<Rightarrow> (st\<lparr>status_timeout := None\<rparr>, clearTimeout h b)
               | None \<Rightarrow> (st, b)) of
           (st1, b1) \<Rightarrow>
             (case getLastBucket b1 of
                None \<Rightarrow> (Some TypeError, st1, b1)
              | Some bk \<Rightarrow>
                  (let b2 = b1\<lparr>buckets := incr_last prop (buckets b1)\<rparr> in
                   case (if strict_eq JNull (forced b2) then updateState b2 else (None, b2)) of
                     (Some e, b3) \<Rightarrow> (Some e, st1, b3)
                   | (None, b3) \<Rightarrow> (None, st1\<lparr>status_done := True\<rparr>, b3)))))"

subsection \<open>Running a command\<close>

text \<open>
  What a command does before it returns: the outcome callbacks it calls, in order, and
  whether it then throws. An exception of a callback passes through the command. A
  fallback returns or throws.
\<close>

datatype mark = MarkSuccess | MarkFailure | MarkTimeout

fun mark_prop :: "mark \<Rightarrow> MEASURE" where
  "mark_prop MarkSuccess = SUCCESS"
| "mark_prop MarkFailure = FAILURE"
| "mark_prop MarkTimeout = TIMEOUT"

datatype command = Command (calls: "mark list") (throws: bool)

datatype fallback = Fallback (fallback_throws: bool)

fun call_marks :: "mark list \<Rightarrow> status \<Rightarrow> breaker \<Rightarrow> exn option \<times> status \<times> breaker" where
  "call_marks [] st b = (None, st, b)"
| "call_marks (m # ms) st b =
     (case measure_cb (mark_prop m) st b of
        (Some e, st', b') \<Rightarrow> (Some e, st', b')
      | (None, st', b') \<Rightarrow> call_marks ms st' b')"

definition call_command :: "command \<Rightarrow> status \<Rightarrow> breaker \<Rightarrow> exn option \<times> status \<times> breaker" where
  "call_command c st b =
     (case call_marks (calls c) st (b\<lparr>command_calls := command_calls b + 1\<rparr>) of
        (Some e, st', b') \<Rightarrow> (Some e, st', b')
      | (None, st', b') \<Rightarrow> (if throws c then (Some UserError, st', b') else (None, st', b')))"

definition execute :: "command \<Rightarrow> jsarg \<Rightarrow> breaker \<Rightarrow> exn option \<times> status \<times> breaker" where
  "execute c timeout_arg b =
     (let st = \<lparr>status_done = False, status_timeout = None, status_timer = None\<rparr>;
          t = positive_or timeout_arg (cb_timeout b) in
      case (if num_pos t then (case setTimeout b of (h, b') \<Rightarrow> (st\<lparr>status_timer := Some h\<rparr>, b'))
            else (st, b)) of
        (st1, b1) \<Rightarrow>
          (case call_command c st1 b1 of
             (Some ex, st2, b2) \<Rightarrow> measure_cb FAILURE st2 b2
           | (None, st2, b2) \<Rightarrow> (None, st2, b2)))"

definition call_fallback :: "fallback \<Rightarrow> exn option" where
  "call_fallback fb = (if fallback_throws fb then Some UserError else None)"

definition fallback_cb :: "fallback \<Rightarrow> breaker \<Rightarrow> exn option \<times> breaker" where
  "fallback_cb fb b =
     (let b1 = (case call_fallback fb of
                  Some ex \<Rightarrow> b\<lparr>fallback_calls := fallback_calls b + 1\<rparr>
                | None \<Rightarrow> b\<lparr>fallback_calls := fallback_calls b + 1\<rparr>) in
      case getLastBucket b1 of
        None \<Rightarrow> (Some TypeError, b1)
      | Some bk \<Rightarrow> (None, b1\<lparr>buckets := incr_last OUTAGE (buckets b1)\<rparr>))"

text \<open>
  \<^verbatim>\<open>run\<close> returns nothing; the model returns the exception that escapes, if any, the
  status record of the invocation when the command path was taken, and the object.
\<close>

definition run :: "command \<Rightarrow> fallback option \<Rightarrow> jsarg \<Rightarrow> breaker
    \<Rightarrow> exn option \<times> status option \<times> breaker" where
  "run c fb timeout_arg b =
     (if isOpen b then
        (case fallback_cb (case fb of Some f \<Rightarrow> f | None \<Rightarrow> Fallback False) b of
           (r, b') \<Rightarrow> (r, None, b'))
      else
        (case execute c timeout_arg b of (r, st, b') \<Rightarrow> (r, Some st, b')))"

subsection \<open>Histories\<close>

text \<open>
  What can happen to a breaker: a call of a public method, a tick of the rotation timer,
  or a later call of an outcome callback of some invocation (by the command's
  asynchronous work or by the invocation's timer), with that invocation's status record.
\<close>

datatype action =
    ARun command "fallback option" jsarg
  | AOpen
  | AClose
  | AReset
  | ATick
  | ACallback mark status

fun step :: "breaker \<Rightarrow> action \<Rightarrow> breaker" where
  "step b (ARun c fb t) = snd (snd (run c fb t b))"
| "step b AOpen = open_cb b"
| "step b AClose = close_cb b"
| "step b AReset = reset b"
| "step b ATick = tick b"
| "step b (ACallback m st) = snd (snd (measure_cb (mark_prop m) st b))"

definition exec :: "breaker \<Rightarrow> action list \<Rightarrow> breaker" where
  "exec b as = foldl step b as"

subsection \<open>Projections and invariants used in the proofs\<close>

text \<open>
  \<open>shape\<close> is what no measurement changes: the configured bucket count, the length of
  the window and the override. \<open>verdict\<close> is what only a state evaluation changes: the
  state and the invocations of the two state callbacks. \<open>window_ok\<close> says that the
  window has a bucket and does not exceed the bucket count in the source's comparison;
  \<open>unreset\<close> is the invariant of a breaker that was never reset: its state is one of
  the enumeration, and \<open>forced\<close> is \<^verbatim>\<open>undefined\<close> or one of the enumeration.
\<close>

definition shape :: "breaker \<Rightarrow> jsnum \<times> nat \<times> jsval" where
  "shape b = (bucketsNumber b, length (buckets b), forced b)"

definition verdict :: "breaker \<Rightarrow> jsval \<times> metrics list \<times> metrics list" where
  "verdict b = (state b, onopen_calls b, onclose_calls b)"

definition window_ok :: "breaker \<Rightarrow> bool" where
  "window_ok b = (buckets b \<noteq> [] \<and> \<not> nat_gt (length (buckets b)) (bucketsNumber b))"

definition enumerated :: "jsval \<Rightarrow> bool" where
  "enumerated v = (v = STATE_OPEN \<or> v = STATE_HALF_OPEN \<or> v = STATE_CLOSED)"

definition unreset :: "breaker \<Rightarrow> bool" where
  "unreset b = (enumerated (state b) \<and> (forced b = JUndefined \<or> enumerated (forced b)))"

subsection \<open>The snapshot in the words of the specification\<close>

text \<open>
  The specification's \<open>total\<close>, \<open>errorCount\<close> and \<open>errorPercent\<close> of a bucket
  sequence, to compare \<open>calculate\<close> with; the division and the multiplication are
  those of doubles.
\<close>

definition spec_total :: "bucket list \<Rightarrow> nat" where
  "spec_total bs = (\<Sum>bk\<leftarrow>bs. success bk + failure bk + timeout bk)"

definition spec_errorCount :: "bucket list \<Rightarrow> nat" where
  "spec_errorCount bs = (\<Sum>bk\<leftarrow>bs. failure bk + timeout bk)"

definition spec_errorPercent :: "bucket list \<Rightarrow> rat" where
  "spec_errorPercent bs =
     js_times (js_divide (of_nat (spec_errorCount bs)) (of_nat (max (spec_total bs) 1))) 100"

subsection \<open>Inputs\<close>

text \<open>
  Values a caller can pass for a numeric option, by the answers of the three built-ins:
  \<^verbatim>\<open>undefined\<close> (\<^verbatim>\<open>isNaN\<close> holds); an integer number \<open>n\<close> of fewer than 22 digits
  (\<^verbatim>\<open>parseInt\<close> reads its decimal notation back); the number \<^verbatim>\<open>0.5\<close> (positive, and
  \<^verbatim>\<open>parseInt("0.5", 10)\<close> is 0); the number \<^verbatim>\<open>Infinity\<close> (positive, and
  \<^verbatim>\<open>parseInt("Infinity", 10)\<close> is \<^verbatim>\<open>NaN\<close>).
\<close>

definition js_undefined :: jsarg where
  "js_undefined = \<lparr>arg_isNaN = True, arg_positive = False, arg_parseInt = NaN\<rparr>"

definition js_integer :: "int \<Rightarrow> jsarg" where
  "js_integer n = \<lparr>arg_isNaN = False, arg_positive = (0 < n), arg_parseInt = Fin n\<rparr>"

definition js_half :: jsarg where
  "js_half = \<lparr>arg_isNaN = False, arg_positive = True, arg_parseInt = Fin 0\<rparr>"

definition js_Infinity :: jsarg where
  "js_Infinity = \<lparr>arg_isNaN = False, arg_positive = True, arg_parseInt = NaN\<rparr>"

text \<open>
  The options object with no option set; the options of scenario A (calibration 5,
  tolerance 50), also with an \<^verbatim>\<open>onopen\<close> that throws; the options with
  \<^verbatim>\<open>bucketsNumber: 0.5\<close> and with \<^verbatim>\<open>bucketsNumber: Infinity\<close>; and one invocation of
  \<open>run\<close> whose command reports a failure before it returns, with no fallback and no
  timeout argument.
\<close>

definition default_options :: options where
  "default_options =
     \<lparr>opt_slidingTimeWindow = js_undefined, opt_bucketsNumber = js_undefined,
      opt_tolerance = js_undefined, opt_calibration = js_undefined,
      opt_timeout = js_undefined, opt_onopen = None, opt_onclose = None\<rparr>"

definition scenario_A_options :: options where
  "scenario_A_options =
     default_options\<lparr>opt_tolerance := js_integer 50, opt_calibration := js_integer 5\<rparr>"

definition throwing_onopen_options :: options where
  "throwing_onopen_options = scenario_A_options\<lparr>opt_onopen := Some (Callback True)\<rparr>"

definition half_bucket_options :: options where
  "half_bucket_options = default_options\<lparr>opt_bucketsNumber := js_half\<rparr>"

definition infinite_bucket_options :: options where
  "infinite_bucket_options = default_options\<lparr>opt_bucketsNumber := js_Infinity\<rparr>"

definition report_failure :: action where
  "report_failure = ARun (Command [MarkFailure] False) None js_undefined"

section \<open>Frame lemmas\<close>

lemma length_incr_last: "bs \<noteq> [] \<Longrightarrow> length (incr_last p bs) = length bs"
  by (simp add: incr_last_def)

lemma shape_updateState: "shape (snd (updateState b)) = shape b"
  by (simp add: updateState_def shape_def Let_def split: option.split)

lemma updateState_shapeD:
  "updateState x = (r, y) \<Longrightarrow>
     bucketsNumber y = bucketsNumber x \<and> length (buckets y) = length (buckets x) \<and> forced y = forced x"
  using shape_updateState[of x] by (simp add: shape_def)

lemma shape_measure_cb: "shape (snd (snd (measure_cb p st b))) = shape b"
  by (auto simp: measure_cb_def getLastBucket_def clearTimeout_def shape_def Let_def length_incr_last
        split: option.split prod.split dest!: updateState_shapeD)

lemma verdict_measure_cb:
  "forced b \<noteq> JNull \<Longrightarrow> verdict (snd (snd (measure_cb p st b))) = verdict b"
  by (auto simp: measure_cb_def getLastBucket_def clearTimeout_def verdict_def strict_eq_def Let_def
        split: option.split prod.split)

lemma shape_call_marks: "shape (snd (snd (call_marks ms st b))) = shape b"
proof (induction ms arbitrary: st b)
  case Nil
  then show ?case by simp
next
  case (Cons m ms)
  obtain r st' b' where m: "measure_cb (mark_prop m) st b = (r, st', b')"
    by (cases "measure_cb (mark_prop m) st b") auto
  have "shape b' = shape b" using shape_measure_cb[of "mark_prop m" st b] m by simp
  then show ?case using Cons.IH[of st' b'] m by (cases r) auto
qed

lemma verdict_call_marks:
  "forced b \<noteq> JNull \<Longrightarrow> verdict (snd (snd (call_marks ms st b))) = verdict b"
proof (induction ms arbitrary: st b)
  case Nil
  then show ?case by simp
next
  case (Cons m ms)
  obtain r st' b' where m: "measure_cb (mark_prop m) st b = (r, st', b')"
    by (cases "measure_cb (mark_prop m) st b") auto
  have v: "verdict b' = verdict b" using verdict_measure_cb[OF Cons.prems, of "mark_prop m" st] m by simp
  have "shape b' = shape b" using shape_measure_cb[of "mark_prop m" st b] m by simp
  then have "forced b' \<noteq> JNull" using Cons.prems by (simp add: shape_def)
  then show ?case using Cons.IH[of b' st'] m v by (cases r) auto
qed


lemma shape_setTimeout: "shape (snd (setTimeout b)) = shape b"
  by (simp add: setTimeout_def shape_def)

lemma verdict_setTimeout: "verdict (snd (setTimeout b)) = verdict b"
  by (simp add: setTimeout_def verdict_def)

lemma shape_call_command: "shape (snd (snd (call_command c st b))) = shape b"
proof -
  let ?b0 = "b\<lparr>command_calls := command_calls b + 1\<rparr>"
  have "shape (snd (snd (call_marks (calls c) st ?b0))) = shape ?b0"
    by (rule shape_call_marks)
  moreover have "shape ?b0 = shape b" by (simp add: shape_def)
  ultimately show ?thesis
    by (auto simp: call_command_def split: prod.split option.split)
qed

lemma verdict_call_command:
  assumes "forced b \<noteq> JNull"
  shows "verdict (snd (snd (call_command c st b))) = verdict b"
proof -
  let ?b0 = "b\<lparr>command_calls := command_calls b + 1\<rparr>"
  have "forced ?b0 \<noteq> JNull" using assms by simp
  then have "verdict (snd (snd (call_marks (calls c) st ?b0))) = verdict ?b0"
    by (rule verdict_call_marks)
  moreover have "verdict ?b0 = verdict b" by (simp add: verdict_def)
  ultimately show ?thesis
    by (auto simp: call_command_def split: prod.split option.split)
qed

lemma execute_cases:
  obtains st1 b1 r st2 b2 where
    "shape b1 = shape b" and "verdict b1 = verdict b" and
    "\<not> status_done st1" and "status_timeout st1 = None" and
    "call_command c st1 b1 = (r, st2, b2)" and
    "execute c t b = (case r of Some ex \<Rightarrow> measure_cb FAILURE st2 b2 | None \<Rightarrow> (None, st2, b2))"
proof (cases "num_pos (positive_or t (cb_timeout b))")
  case True
  obtain h b' where s: "setTimeout b = (h, b')" by (cases "setTimeout b")
  let ?st1 = "\<lparr>status_done = False, status_timeout = None, status_timer = Some h\<rparr>"
  obtain r st2 b2 where cc: "call_command c ?st1 b' = (r, st2, b2)"
    by (cases "call_command c ?st1 b'") auto
  have "execute c t b = (case r of Some ex \<Rightarrow> measure_cb FAILURE st2 b2 | None \<Rightarrow> (None, st2, b2))"
    using True s cc by (simp add: execute_def Let_def split: option.split)
  moreover have "shape b' = shape b" using shape_setTimeout[of b] s by simp
  moreover have "verdict b' = verdict b" using verdict_setTimeout[of b] s by simp
  ultimately show ?thesis using that[of b' ?st1 r st2 b2] cc by simp
next
  case False
  let ?st1 = "\<lparr>status_done = False, status_timeout = None, status_timer = None\<rparr>"
  obtain r st2 b2 where cc: "call_command c ?st1 b = (r, st2, b2)"
    by (cases "call_command c ?st1 b") auto
  have "execute c t b = (case r of Some ex \<Rightarrow> measure_cb FAILURE st2 b2 | None \<Rightarrow> (None, st2, b2))"
    using False cc by (simp add: execute_def Let_def split: option.split)
  then show ?thesis using that[of b ?st1 r st2 b2] cc by simp
qed

lemma shape_execute: "shape (snd (snd (execute c t b))) = shape b"
proof -
  obtain st1 b1 r st2 b2 where
    b1: "shape b1 = shape b" and
    cc: "call_command c st1 b1 = (r, st2, b2)" and
    ex: "execute c t b = (case r of Some ex \<Rightarrow> measure_cb FAILURE st2 b2 | None \<Rightarrow> (None, st2, b2))"
    by (rule execute_cases[where b=b and c=c and t=t]) blast
  have b2: "shape b2 = shape b"
    using shape_call_command[of c st1 b1] cc b1 by simp
  show ?thesis
    using b2 shape_measure_cb[of FAILURE st2 b2] by (simp add: ex split: option.split)
qed

lemma verdict_execute:
  assumes "forced b \<noteq> JNull"
  shows "verdict (snd (snd (execute c t b))) = verdict b"
proof -
  obtain st1 b1 r st2 b2 where
    b1: "shape b1 = shape b" and v1: "verdict b1 = verdict b" and
    cc: "call_command c st1 b1 = (r, st2, b2)" and
    ex: "execute c t b = (case r of Some ex \<Rightarrow> measure_cb FAILURE st2 b2 | None \<Rightarrow> (None, st2, b2))"
    by (rule execute_cases[where b=b and c=c and t=t]) blast
  have f1: "forced b1 \<noteq> JNull" using b1 assms by (simp add: shape_def)
  have b2: "shape b2 = shape b"
    using shape_call_command[of c st1 b1] cc b1 by simp
  have v2: "verdict b2 = verdict b"
    using verdict_call_command[OF f1, of c st1] cc v1 by simp
  have f2: "forced b2 \<noteq> JNull" using b2 assms by (simp add: shape_def)
  show ?thesis
    using v2 verdict_measure_cb[OF f2, of FAILURE st2] by (simp add: ex split: option.split)
qed

lemma fallback_cb_eq:
  "fallback_cb fb b =
     (if buckets b = [] then (Some TypeError, b\<lparr>fallback_calls := fallback_calls b + 1\<rparr>)
      else (None, b\<lparr>fallback_calls := fallback_calls b + 1,
                     buckets := incr_last OUTAGE (buckets b)\<rparr>))"
  by (simp add: fallback_cb_def call_fallback_def getLastBucket_def Let_def)

lemma shape_fallback_cb: "shape (snd (fallback_cb fb b)) = shape b"
  by (simp add: fallback_cb_eq shape_def length_incr_last)

lemma verdict_fallback_cb: "verdict (snd (fallback_cb fb b)) = verdict b"
  by (simp add: fallback_cb_eq verdict_def)

lemma shape_run: "shape (snd (snd (run c fb t b))) = shape b"
  using shape_fallback_cb[of "case fb of Some f \<Rightarrow> f | None \<Rightarrow> Fallback False" b] shape_execute[of c t b]
  by (auto simp: run_def split: prod.split)

lemma verdict_run:
  "forced b \<noteq> JNull \<Longrightarrow> verdict (snd (snd (run c fb t b))) = verdict b"
  using verdict_fallback_cb[of "case fb of Some f \<Rightarrow> f | None \<Rightarrow> Fallback False" b] verdict_execute[of b c t]
  by (auto simp: run_def split: prod.split)


lemma createNextSlidingBucket_fields:
  "bucketsNumber (createNextSlidingBucket b) = bucketsNumber b"
  "forced (createNextSlidingBucket b) = forced b"
  "state (createNextSlidingBucket b) = state b"
  "bucketIndex (createNextSlidingBucket b) = bucketIndex b + 1"
  by (simp_all add: createNextSlidingBucket_def Let_def)

lemma createNextSlidingBucket_buckets:
  "buckets (createNextSlidingBucket b) =
     (let bs = (if nat_gt (length (buckets b)) (bucketsNumber b) then tl (buckets b)
                else buckets b) @ [createBucket]
      in if nat_gt (length bs) (bucketsNumber b) then tl bs else bs)"
  by (simp add: createNextSlidingBucket_def Let_def)

text \<open>
  On a window that has a bucket and does not exceed the bucket count, the rotation step
  appends the fresh bucket at the end and evicts the oldest bucket from the front exactly
  when the longer window would exceed the count.
\<close>

lemma createNextSlidingBucket_rotates:
  assumes "window_ok b"
  shows "buckets (createNextSlidingBucket b) =
           (if nat_gt (length (buckets b) + 1) (bucketsNumber b)
            then tl (buckets b) @ [createBucket] else buckets b @ [createBucket])"
  using assms by (cases "buckets b") (simp_all add: createNextSlidingBucket_buckets window_ok_def)

lemma createNextSlidingBucket_window:
  assumes "window_ok b"
  shows "window_ok (createNextSlidingBucket b)"
proof -
  from assms have ne: "buckets b \<noteq> []" and le: "\<not> nat_gt (length (buckets b)) (bucketsNumber b)"
    by (simp_all add: window_ok_def)
  show ?thesis
  proof (cases "nat_gt (length (buckets b) + 1) (bucketsNumber b)")
    case True
    then have "buckets (createNextSlidingBucket b) = tl (buckets b) @ [createBucket]"
      using createNextSlidingBucket_rotates[OF assms] by simp
    then show ?thesis
      using ne le by (simp add: window_ok_def createNextSlidingBucket_fields)
  next
    case False
    then have "buckets (createNextSlidingBucket b) = buckets b @ [createBucket]"
      using createNextSlidingBucket_rotates[OF assms] by simp
    then show ?thesis
      using False by (simp add: window_ok_def createNextSlidingBucket_fields)
  qed
qed

lemma tick_fields:
  "bucketsNumber (tick b) = bucketsNumber b"
  "forced (tick b) = forced b"
  "buckets (tick b) = buckets (createNextSlidingBucket b)"
  by (simp_all add: tick_def Let_def setTimeout_def clearTimeout_def createNextSlidingBucket_def
      split: option.split)

lemma tick_state:
  "state (tick b) =
     (if nat_gt (bucketIndex b + 1) (bucketsNumber b) \<and> isOpen b then STATE_HALF_OPEN
      else state b)"
  by (simp add: tick_def Let_def setTimeout_def clearTimeout_def createNextSlidingBucket_fields
      isOpen_def strict_eq_def split: option.split)

lemma tick_window: "window_ok b \<Longrightarrow> window_ok (tick b)"
  using createNextSlidingBucket_window[of b]
  by (simp add: window_ok_def tick_fields createNextSlidingBucket_fields)

lemma window_ok_shape: "shape b' = shape b \<Longrightarrow> window_ok b' = window_ok b"
  by (auto simp: shape_def window_ok_def)

lemma shape_step_measurement:
  "shape (step b (ARun c fb t)) = shape b"
  "shape (step b (ACallback m st)) = shape b"
  by (simp_all add: shape_run shape_measure_cb)

lemma verdict_step_measurement:
  "forced b \<noteq> JNull \<Longrightarrow> verdict (step b (ARun c fb t)) = verdict b"
  "forced b \<noteq> JNull \<Longrightarrow> verdict (step b (ACallback m st)) = verdict b"
  by (simp_all add: verdict_run verdict_measure_cb)

lemma bucketsNumber_step: "bucketsNumber (step b a) = bucketsNumber b"
proof (cases a)
  case (ARun c fb t)
  then show ?thesis using shape_step_measurement(1)[of b c fb t] by (simp add: shape_def)
next
  case (ACallback m st)
  then show ?thesis using shape_step_measurement(2)[of b m st] by (simp add: shape_def)
qed (simp_all add: open_cb_def close_cb_def reset_def tick_fields)

lemma window_ok_step:
  assumes "window_ok b"
  shows "window_ok (step b a)"
proof (cases a)
  case (ARun c fb t)
  then show ?thesis
    using assms window_ok_shape[OF shape_step_measurement(1)[of b c fb t]] by simp
next
  case (ACallback m st)
  then show ?thesis
    using assms window_ok_shape[OF shape_step_measurement(2)[of b m st]] by simp
next
  case ATick
  then show ?thesis using assms by (simp add: tick_window)
qed (use assms in \<open>simp_all add: open_cb_def close_cb_def reset_def window_ok_def\<close>)

lemma forced_step:
  "a \<noteq> AOpen \<Longrightarrow> a \<noteq> AClose \<Longrightarrow> a \<noteq> AReset \<Longrightarrow> forced (step b a) = forced b"
proof (cases a)
  case (ARun c fb t)
  then show ?thesis using shape_step_measurement(1)[of b c fb t] by (simp add: shape_def)
next
  case (ACallback m st)
  then show ?thesis using shape_step_measurement(2)[of b m st] by (simp add: shape_def)
qed (simp_all add: tick_fields)

lemma unreset_forced: "unreset b \<Longrightarrow> forced b \<noteq> JNull"
  by (auto simp: unreset_def enumerated_def)

lemma unreset_step:
  assumes "a \<noteq> AReset" and "unreset b"
  shows "unreset (step b a)"
proof (cases a)
  case (ARun c fb t)
  with assms show ?thesis
    using shape_step_measurement(1)[of b c fb t]
      verdict_step_measurement(1)[OF unreset_forced[OF assms(2)], of c fb t]
    by (simp add: shape_def verdict_def unreset_def)
next
  case (ACallback m st)
  with assms show ?thesis
    using shape_step_measurement(2)[of b m st]
      verdict_step_measurement(2)[OF unreset_forced[OF assms(2)], of m st]
    by (simp add: shape_def verdict_def unreset_def)
next
  case ATick
  with assms show ?thesis by (simp add: unreset_def enumerated_def tick_fields tick_state)
qed (use assms in \<open>simp_all add: open_cb_def close_cb_def unreset_def enumerated_def\<close>)

lemma exec_Nil: "exec b [] = b"
  by (simp add: exec_def)

lemma exec_snoc: "exec b (as @ [a]) = step (exec b as) a"
  by (simp add: exec_def)

lemma bucketsNumber_exec: "bucketsNumber (exec b as) = bucketsNumber b"
  by (induction as rule: rev_induct) (simp_all add: exec_Nil exec_snoc bucketsNumber_step)

lemma window_ok_exec: "window_ok b \<Longrightarrow> window_ok (exec b as)"
  by (induction as rule: rev_induct) (simp_all add: exec_Nil exec_snoc window_ok_step)

lemma unreset_exec: "AReset \<notin> set as \<Longrightarrow> unreset b \<Longrightarrow> unreset (exec b as)"
  by (induction as rule: rev_induct) (auto simp: exec_Nil exec_snoc intro: unreset_step)

lemma forced_exec:
  "AOpen \<notin> set as \<Longrightarrow> AClose \<notin> set as \<Longrightarrow> AReset \<notin> set as \<Longrightarrow> forced (exec b as) = forced b"
  by (induction as rule: rev_induct) (auto simp: exec_Nil exec_snoc forced_step)

lemma CircuitBreaker_eq:
  "CircuitBreaker opts =
     \<lparr>initialized = True,
      slidingTimeWindow = positive_or (opt_slidingTimeWindow opts) (Fin 30000),
      bucketsNumber = positive_or (opt_bucketsNumber opts) (Fin 10),
      tolerance = positive_or (opt_tolerance opts) (Fin 50),
      calibration = positive_or (opt_calibration opts) (Fin 5),
      cb_timeout = positive_or (opt_timeout opts) (Fin 0),
      onopen = (case opt_onopen opts of Some f \<Rightarrow> f | None \<Rightarrow> Callback False),
      onclose = (case opt_onclose opts of Some f \<Rightarrow> f | None \<Rightarrow> Callback False),
      buckets = [createBucket], state = STATE_CLOSED, forced = JUndefined, bucketIndex = 0,
      slide = (positive_or (opt_slidingTimeWindow opts) (Fin 30000),
               positive_or (opt_bucketsNumber opts) (Fin 10)),
      timer = Some 1, live_timers = [1], next_handle = 2,
      onopen_calls = [], onclose_calls = [], fallback_calls = 0, command_calls = 0\<rparr>"
  by (simp add: CircuitBreaker_def initialize_def fresh_object_def startTicking_def setTimeout_def)

text \<open>
  The constructor's window of one bucket does not exceed the bucket count unless the
  count is an integer below 1 (or minus infinity).
\<close>

lemma window_ok_CircuitBreaker:
  "\<not> nat_gt 1 (bucketsNumber (CircuitBreaker opts)) \<Longrightarrow> window_ok (CircuitBreaker opts)"
  by (simp add: CircuitBreaker_eq window_ok_def)

lemma unreset_CircuitBreaker: "unreset (CircuitBreaker opts)"
  by (simp add: CircuitBreaker_eq unreset_def enumerated_def)

section \<open>Rounding to a double\<close>

lemma bitlen_powi:
  assumes "0 < p"
  shows "(2::rat) powi (bitlen p - 1) \<le> of_int p \<and> (of_int p :: rat) < 2 powi bitlen p"
proof -
  from bitlen_bounds[OF assms] have lo: "2 ^ nat (bitlen p - 1) \<le> p" and hi: "p < 2 ^ nat (bitlen p)"
    by simp_all
  have pos: "1 \<le> bitlen p"
  proof (rule ccontr)
    assume "\<not> 1 \<le> bitlen p"
    then have "nat (bitlen p) = 0" by simp
    with hi assms show False by simp
  qed
  have "(2::rat) powi (bitlen p - 1) = 2 ^ nat (bitlen p - 1)"
    using pos by (simp add: power_int_nonneg_exp)
  also have "\<dots> = of_int (2 ^ nat (bitlen p - 1))" by simp
  also have "\<dots> \<le> of_int p" using lo by (simp only: of_int_le_iff)
  finally have a: "(2::rat) powi (bitlen p - 1) \<le> of_int p" .
  have "(of_int p :: rat) < of_int (2 ^ nat (bitlen p))" using hi by (simp only: of_int_less_iff)
  also have "\<dots> = 2 powi bitlen p" using pos by (simp add: power_int_nonneg_exp)
  finally show ?thesis using a by simp
qed

lemma ilog2_bounds:
  assumes "0 < x"
  shows "2 powi ilog2 x \<le> x \<and> x < 2 powi (ilog2 x + 1)"
proof -
  obtain p q where pq: "quotient_of x = (p, q)" by (cases "quotient_of x")
  have q: "0 < q" using pq by (rule quotient_of_denom_pos)
  have x: "x = of_int p / of_int q" using pq by (rule quotient_of_div)
  have p: "0 < p" using assms q x by (simp add: zero_less_divide_iff)
  let ?c = "bitlen p - bitlen q"
  from bitlen_powi[OF p] have p1: "(2::rat) powi (bitlen p - 1) \<le> of_int p"
    and p2: "(of_int p :: rat) < 2 powi bitlen p" by simp_all
  from bitlen_powi[OF q] have q1: "(2::rat) powi (bitlen q - 1) \<le> of_int q"
    and q2: "(of_int q :: rat) < 2 powi bitlen q" by simp_all
  have qpos: "(0::rat) < of_int q" using q by simp
  have lo: "2 powi (?c - 1) < x"
  proof -
    have "(2::rat) powi (?c - 1) * of_int q < 2 powi (?c - 1) * 2 powi bitlen q"
      using q2 by (simp add: mult_strict_left_mono)
    also have "\<dots> = 2 powi (bitlen p - 1)" by (simp add: power_int_add[symmetric])
    also have "\<dots> \<le> of_int p" by (rule p1)
    finally show ?thesis using qpos by (simp add: x pos_less_divide_eq)
  qed
  have hi: "x < 2 powi (?c + 1)"
  proof -
    have "(of_int p :: rat) < 2 powi bitlen p" by (rule p2)
    also have "\<dots> = 2 powi (?c + 1) * 2 powi (bitlen q - 1)" by (simp add: power_int_add[symmetric])
    also have "\<dots> \<le> 2 powi (?c + 1) * of_int q" using q1 by (simp add: mult_left_mono)
    finally show ?thesis using qpos by (simp add: x pos_divide_less_eq)
  qed
  show ?thesis
  proof (cases "2 powi ?c \<le> x")
    case True
    then have "ilog2 x = ?c" using pq by (simp add: ilog2_def)
    then show ?thesis using True hi by simp
  next
    case False
    then have "ilog2 x = ?c - 1" using pq by (simp add: ilog2_def)
    then show ?thesis using False lo by simp
  qed
qed

lemma two_powi_pos: "(0::rat) < 2 powi e"
  by (simp add: zero_less_power_int)

lemma two_powi_less_D: "(2::rat) powi a < 2 powi b \<Longrightarrow> a < b"
proof (rule ccontr)
  assume l: "(2::rat) powi a < 2 powi b" and "\<not> a < b"
  then have "b \<le> a" by simp
  then have "(2::rat) powi b \<le> 2 powi a" by (rule power_int_increasing) simp
  with l show False by simp
qed

lemma two_powi_le: "a \<le> b \<Longrightarrow> (2::rat) powi a \<le> 2 powi b"
  by (rule power_int_increasing) simp_all

lemma ilog2_eqI:
  assumes "2 powi e \<le> x" and "x < 2 powi (e + 1)"
  shows "ilog2 x = e"
proof -
  have pos: "0 < x" by (rule less_le_trans[OF two_powi_pos assms(1)])
  from ilog2_bounds[OF pos] have a: "2 powi ilog2 x \<le> x" and b: "x < 2 powi (ilog2 x + 1)"
    by simp_all
  have "(2::rat) powi e < 2 powi (ilog2 x + 1)" using assms(1) b by simp
  then have "e < ilog2 x + 1" by (rule two_powi_less_D)
  moreover have "(2::rat) powi ilog2 x < 2 powi (e + 1)" using a assms(2) by simp
  then have "ilog2 x < e + 1" by (rule two_powi_less_D)
  ultimately show ?thesis by simp
qed

lemma ilog2_mono:
  assumes "0 < x" and "x \<le> y"
  shows "ilog2 x \<le> ilog2 y"
proof -
  have "0 < y" using assms by simp
  from ilog2_bounds[OF assms(1)] ilog2_bounds[OF this] assms(2)
  have "(2::rat) powi ilog2 x < 2 powi (ilog2 y + 1)" by simp
  then have "ilog2 x < ilog2 y + 1" by (rule two_powi_less_D)
  then show ?thesis by simp
qed

lemma round_half_even_floor:
  "\<lfloor>k\<rfloor> \<le> round_half_even k \<and> round_half_even k \<le> \<lfloor>k\<rfloor> + 1"
  by (simp add: round_half_even_def Let_def)

lemma round_half_even_of_int [simp]: "round_half_even (of_int n) = n"
  by (simp add: round_half_even_def Let_def)

lemma round_half_even_numeral [simp]: "round_half_even (numeral n) = numeral n"
  by (simp add: round_half_even_def Let_def)

lemma round_half_even_ge: "of_int n \<le> k \<Longrightarrow> n \<le> round_half_even k"
proof -
  assume "of_int n \<le> k"
  then have "n \<le> \<lfloor>k\<rfloor>" by (simp add: le_floor_iff)
  then show ?thesis using round_half_even_floor[of k] by simp
qed

lemma round_half_even_le: "k \<le> of_int n \<Longrightarrow> round_half_even k \<le> n"
proof (cases "k = of_int n")
  case True
  then show ?thesis by simp
next
  case False
  assume "k \<le> of_int n"
  with False have "k < of_int n" by simp
  then have "\<lfloor>k\<rfloor> < n" by (simp add: floor_less_iff)
  then show ?thesis using round_half_even_floor[of k] by simp
qed

lemma round_half_even_mono:
  assumes "k \<le> l"
  shows "round_half_even k \<le> round_half_even l"
proof (cases "\<lfloor>k\<rfloor> = \<lfloor>l\<rfloor>")
  case True
  then have "k - of_int \<lfloor>k\<rfloor> \<le> l - of_int \<lfloor>l\<rfloor>" using assms by simp
  then show ?thesis using True by (auto simp: round_half_even_def Let_def)
next
  case False
  have "\<lfloor>k\<rfloor> \<le> \<lfloor>l\<rfloor>" using assms by (rule floor_mono)
  with False have "\<lfloor>k\<rfloor> + 1 \<le> \<lfloor>l\<rfloor>" by simp
  then show ?thesis using round_half_even_floor[of k] round_half_even_floor[of l] by simp
qed

lemma round_half_even_eqI:
  "of_int n - 1 / 2 < k \<Longrightarrow> k < of_int n + 1 / 2 \<Longrightarrow> round_half_even k = n"
proof -
  assume a: "of_int n - 1 / 2 < k" and b: "k < of_int n + 1 / 2"
  show ?thesis
  proof (cases "of_int n \<le> k")
    case True
    then have "\<lfloor>k\<rfloor> = n" using b by (simp add: floor_eq_iff, linarith?)
    then show ?thesis using b by (simp add: round_half_even_def Let_def, linarith?)
  next
    case False
    then have "\<lfloor>k\<rfloor> = n - 1" using a by (simp add: floor_eq_iff, linarith?)
    then show ?thesis using a by (simp add: round_half_even_def Let_def, linarith?)
  qed
qed

text \<open>The rounding on non-negative numbers.\<close>

lemma round_double_pos:
  "0 < x \<Longrightarrow> round_double x = of_int (round_half_even (x / 2 powi ulp_exponent x)) * 2 powi ulp_exponent x"
  by (simp add: round_double_def)

lemma round_double_0 [simp]: "round_double 0 = 0"
  by (simp add: round_double_def)

lemma round_double_nonneg: "0 \<le> x \<Longrightarrow> 0 \<le> round_double x"
proof (cases "x = 0")
  case True
  then show ?thesis by simp
next
  case False
  assume "0 \<le> x"
  with False have pos: "0 < x" by simp
  have "(of_int 0 :: rat) \<le> x / 2 powi ulp_exponent x"
    using pos two_powi_pos[of "ulp_exponent x"] by simp
  then have "0 \<le> round_half_even (x / 2 powi ulp_exponent x)" by (rule round_half_even_ge)
  then show ?thesis using two_powi_pos[of "ulp_exponent x"] by (simp add: round_double_pos[OF pos])
qed

lemma round_double_upper:
  assumes "0 < x"
  shows "round_double x \<le> 2 powi (max (ilog2 x) (- 1022) + 1)"
proof -
  let ?e = "max (ilog2 x) (- 1022)"
  let ?u = "(2::rat) powi (?e - 52)"
  have u: "0 < ?u" by (rule two_powi_pos)
  have "x < 2 powi (ilog2 x + 1)" using ilog2_bounds[OF assms] by simp
  also have "\<dots> \<le> 2 powi (?e + 1)" by (rule two_powi_le) simp
  also have "\<dots> = 2 ^ 53 * ?u" by (simp add: power_int_add power_int_diff)
  finally have "x / ?u \<le> of_int (2 ^ 53)" using u by (simp add: pos_divide_le_eq)
  then have "round_half_even (x / ?u) \<le> 2 ^ 53" by (rule round_half_even_le)
  then have "(of_int (round_half_even (x / ?u)) :: rat) \<le> of_int (2 ^ 53)"
    by (simp only: of_int_le_iff)
  then have "of_int (round_half_even (x / ?u)) * ?u \<le> of_int (2 ^ 53) * ?u"
    using u by (simp only: mult_le_cancel_right_pos)
  also have "\<dots> = 2 powi (?e + 1)" by (simp add: power_int_add power_int_diff)
  finally show ?thesis by (simp add: round_double_pos[OF assms] ulp_exponent_def)
qed

lemma round_double_lower:
  assumes "0 < x" and "- 1022 \<le> ilog2 x"
  shows "2 powi ilog2 x \<le> round_double x"
proof -
  let ?e = "ilog2 x"
  let ?u = "(2::rat) powi (?e - 52)"
  have e: "max ?e (- 1022) = ?e" using assms(2) by simp
  have u: "0 < ?u" by (rule two_powi_pos)
  have "of_int (2 ^ 52) * ?u = 2 powi ?e" by (simp add: power_int_add power_int_diff)
  also have "\<dots> \<le> x" using ilog2_bounds[OF assms(1)] by simp
  finally have "of_int (2 ^ 52) \<le> x / ?u" using u by (simp add: pos_le_divide_eq)
  then have "2 ^ 52 \<le> round_half_even (x / ?u)" by (rule round_half_even_ge)
  then have "(of_int (2 ^ 52) :: rat) \<le> of_int (round_half_even (x / ?u))"
    by (simp only: of_int_le_iff)
  then have A: "of_int (2 ^ 52) * ?u \<le> of_int (round_half_even (x / ?u)) * ?u"
    using u by (simp only: mult_le_cancel_right_pos)
  have B: "of_int (2 ^ 52) * ?u = 2 powi ?e" by (simp add: power_int_add power_int_diff)
  have C: "round_double x = of_int (round_half_even (x / ?u)) * ?u"
    by (simp add: round_double_pos[OF assms(1)] ulp_exponent_def e)
  from A show ?thesis unfolding B C .
qed

lemma round_double_mono_pos:
  assumes "0 < x" and "x \<le> y"
  shows "round_double x \<le> round_double y"
proof -
  have y: "0 < y" using assms by simp
  let ?ex = "max (ilog2 x) (- 1022)" and ?ey = "max (ilog2 y) (- 1022)"
  have le: "?ex \<le> ?ey" using ilog2_mono[OF assms] by simp
  show ?thesis
  proof (cases "?ex = ?ey")
    case True
    let ?u = "(2::rat) powi (?ex - 52)"
    have u: "0 < ?u" by (rule two_powi_pos)
    have "x / ?u \<le> y / ?u" using assms(2) u by (simp add: divide_right_mono)
    then have "round_half_even (x / ?u) \<le> round_half_even (y / ?u)" by (rule round_half_even_mono)
    then have "(of_int (round_half_even (x / ?u)) :: rat) \<le> of_int (round_half_even (y / ?u))"
      by (simp only: of_int_le_iff)
    then have "of_int (round_half_even (x / ?u)) * ?u \<le> of_int (round_half_even (y / ?u)) * ?u"
      using u by (simp only: mult_le_cancel_right_pos)
    then show ?thesis
      using True by (simp add: round_double_pos[OF assms(1)] round_double_pos[OF y] ulp_exponent_def)
  next
    case False
    with le have lt: "?ex < ?ey" by linarith
    then have ey: "?ey = ilog2 y" and big: "- 1022 \<le> ilog2 y"
      unfolding max_def by (auto split: if_splits)
    have "round_double x \<le> 2 powi (?ex + 1)" by (rule round_double_upper[OF assms(1)])
    also have "\<dots> \<le> 2 powi ilog2 y"
    proof (rule two_powi_le)
      show "?ex + 1 \<le> ilog2 y" using lt ey by linarith
    qed
    also have "\<dots> \<le> round_double y" by (rule round_double_lower[OF y big])
    finally show ?thesis .
  qed
qed

lemma round_double_mono:
  assumes "0 \<le> x" and "x \<le> y"
  shows "round_double x \<le> round_double y"
proof (cases "x = 0")
  case True
  then show ?thesis using round_double_nonneg[of y] assms by simp
next
  case False
  with assms(1) have "0 < x" by simp
  then show ?thesis using assms(2) by (rule round_double_mono_pos)
qed

lemma round_double_1 [simp]: "round_double 1 = 1"
proof -
  have e: "ilog2 1 = 0" by (rule ilog2_eqI) simp_all
  show ?thesis by (simp add: round_double_def ulp_exponent_def e power_int_minus)
qed

lemma round_double_100 [simp]: "round_double 100 = 100"
proof -
  have e: "ilog2 100 = 6" by (rule ilog2_eqI) simp_all
  show ?thesis by (simp add: round_double_def ulp_exponent_def e power_int_minus)
qed

lemma round_double_eqI:
  assumes "2 powi e \<le> x" and "x < 2 powi (e + 1)" and "- 1022 \<le> e"
    and "of_int n - 1 / 2 < x / 2 powi (e - 52)" and "x / 2 powi (e - 52) < of_int n + 1 / 2"
  shows "round_double x = of_int n * 2 powi (e - 52)"
proof -
  have pos: "0 < x" by (rule less_le_trans[OF two_powi_pos assms(1)])
  have e: "ilog2 x = e" using assms(1,2) by (rule ilog2_eqI)
  have u: "ulp_exponent x = e - 52" using assms(3) by (simp add: ulp_exponent_def e)
  have "round_half_even (x / 2 powi (e - 52)) = n" using assms(4,5) by (rule round_half_even_eqI)
  then show ?thesis by (simp add: round_double_pos[OF pos] u)
qed

text \<open>
  Two computations of the source's \<^verbatim>\<open>(error / total) * 100\<close>: 1 error in 3 gives the
  double \<^verbatim>\<open>33.33333333333333\<close>, below the exact quotient, and 11 errors in 20 give the
  double \<^verbatim>\<open>55.00000000000001\<close>, above 55.
\<close>

lemma js_divide_1_3: "js_divide 1 3 = 6004799503160661 / 2 ^ 54"
proof -
  have "round_double (1 / 3) = of_int 6004799503160661 * 2 powi (- 2 - 52)"
    by (rule round_double_eqI[where e = "- 2" and n = 6004799503160661]) simp_all
  then show ?thesis by (simp add: js_divide_def)
qed

lemma percent_1_of_3:
  "js_times (js_divide 1 3) 100 = 2345624805922133 / 2 ^ 46 \<and>
   js_times (js_divide 1 3) 100 < 100 / 3"
proof -
  have "round_double (6004799503160661 / 2 ^ 54 * 100) = of_int 4691249611844266 * 2 powi (5 - 52)"
    by (rule round_double_eqI[where e = 5 and n = 4691249611844266]) simp_all
  then have "js_times (js_divide 1 3) 100 = 4691249611844266 / 2 ^ 47"
    by (simp add: js_times_def js_divide_1_3)
  then show ?thesis by simp
qed

lemma js_divide_11_20: "js_divide 11 20 = 4953959590107546 / 2 ^ 53"
proof -
  have "round_double (11 / 20) = of_int 4953959590107546 * 2 powi (- 1 - 52)"
    by (rule round_double_eqI[where e = "- 1" and n = 4953959590107546]) simp_all
  then show ?thesis by (simp add: js_divide_def)
qed

lemma percent_11_of_20:
  "js_times (js_divide 11 20) 100 = 7740561859543041 / 2 ^ 47 \<and>
   55 < js_times (js_divide 11 20) 100"
proof -
  have "round_double (4953959590107546 / 2 ^ 53 * 100) = of_int 7740561859543041 * 2 powi (5 - 52)"
    by (rule round_double_eqI[where e = 5 and n = 7740561859543041]) simp_all
  then have "js_times (js_divide 11 20) 100 = 7740561859543041 / 2 ^ 47"
    by (simp add: js_times_def js_divide_11_20)
  then show ?thesis by simp
qed

section \<open>The snapshot\<close>

lemma calculate_loop_sums:
  "calculate_loop bs tot err = (tot + spec_total bs, err + spec_errorCount bs)"
  by (induction bs arbitrary: tot err) (simp_all add: spec_total_def spec_errorCount_def Let_def)

lemma spec_errorCount_le_total: "spec_errorCount bs \<le> spec_total bs"
  by (induction bs) (simp_all add: spec_total_def spec_errorCount_def)

lemma calculate_eq:
  "calculate b = \<lparr>total_m = spec_total (buckets b), error_m = spec_errorCount (buckets b),
                  percent_m = spec_errorPercent (buckets b)\<rparr>"
proof -
  have "(if 0 < t then t else 1) = max t 1" for t :: nat by auto
  then show ?thesis by (simp add: calculate_def calculate_loop_sums spec_errorPercent_def)
qed

lemma js_percent_bounds:
  fixes e d :: nat
  assumes "e \<le> d" and "0 < d"
  shows "0 \<le> js_times (js_divide (of_nat e) (of_nat d)) 100 \<and>
         js_times (js_divide (of_nat e) (of_nat d)) 100 \<le> 100"
proof -
  let ?q = "js_divide (of_nat e) (of_nat d)"
  have x0: "(0::rat) \<le> of_nat e / of_nat d" by simp
  have "(of_nat e :: rat) \<le> of_nat d" using assms(1) by simp
  moreover have "(0::rat) < of_nat d" using assms(2) by simp
  ultimately have x1: "(of_nat e :: rat) / of_nat d \<le> 1" by (simp add: pos_divide_le_eq)
  have q0: "0 \<le> ?q" unfolding js_divide_def using x0 by (rule round_double_nonneg)
  have "?q \<le> round_double 1" unfolding js_divide_def using x0 x1 by (rule round_double_mono)
  then have q1: "?q \<le> 1" by simp
  have y0: "0 \<le> ?q * 100" using q0 by simp
  have y1: "?q * 100 \<le> 100" using q1 by simp
  have "0 \<le> js_times ?q 100" unfolding js_times_def using y0 by (rule round_double_nonneg)
  moreover have "js_times ?q 100 \<le> round_double 100"
    unfolding js_times_def using y0 y1 by (rule round_double_mono)
  ultimately show ?thesis by simp
qed

lemma spec_errorPercent_bounds:
  "0 \<le> spec_errorPercent bs \<and> spec_errorPercent bs \<le> 100"
  unfolding spec_errorPercent_def
  by (rule js_percent_bounds) (use spec_errorCount_le_total[of bs] in simp_all)

lemma spec_errorPercent_zero: "spec_total bs = 0 \<Longrightarrow> spec_errorPercent bs = 0"
  using spec_errorCount_le_total[of bs]
  by (simp add: spec_errorPercent_def js_divide_def js_times_def)

lemma js_percent_all: "0 < n \<Longrightarrow> js_times (js_divide (of_nat n) (of_nat n)) 100 = 100"
  by (simp add: js_divide_def js_times_def)

text \<open>
  C8. For every breaker, whatever its bucket sequence, \<open>calculate\<close> returns the
  specification's snapshot: \<open>total\<close> sums success, failure and timeout over all buckets
  (outage excluded), \<open>error\<close> sums failure and timeout, and \<open>percent\<close> is \<open>error\<close>
  divided by \<open>max total 1\<close>, times 100, in the arithmetic of doubles; so \<open>percent\<close>
  lies between 0 and 100 and is 0 when \<open>total\<close> is 0.
\<close>

theorem calculate_snapshot:
  "calculate b = \<lparr>total_m = spec_total (buckets b), error_m = spec_errorCount (buckets b),
                  percent_m = spec_errorPercent (buckets b)\<rparr> \<and>
   0 \<le> percent_m (calculate b) \<and> percent_m (calculate b) \<le> 100 \<and>
   (total_m (calculate b) = 0 \<longrightarrow> percent_m (calculate b) = 0)"
  using spec_errorPercent_bounds[of "buckets b"] spec_errorPercent_zero[of "buckets b"]
  by (simp add: calculate_eq)

theorem calculate_snapshot_witness:
  "total_m (calculate (CircuitBreaker default_options)) = 0 \<and>
   percent_m (calculate (CircuitBreaker default_options)) = 0 \<and>
   calculate ((CircuitBreaker default_options)
      \<lparr>buckets := [\<lparr>failure = 1, success = 2, timeout = 0, outage = 4\<rparr>,
                   \<lparr>failure = 5, success = 7, timeout = 5, outage = 0\<rparr>]\<rparr>)
     = \<lparr>total_m = 20, error_m = 11, percent_m = 7740561859543041 / 2 ^ 47\<rparr> \<and>
   percent_m (calculate ((CircuitBreaker default_options)
      \<lparr>buckets := [\<lparr>failure = 1, success = 2, timeout = 0, outage = 4\<rparr>,
                   \<lparr>failure = 5, success = 7, timeout = 5, outage = 0\<rparr>]\<rparr>)) \<le> 100"
proof -
  let ?b0 = "CircuitBreaker default_options"
  let ?b1 = "?b0\<lparr>buckets := [\<lparr>failure = 1, success = 2, timeout = 0, outage = 4\<rparr>,
                              \<lparr>failure = 5, success = 7, timeout = 5, outage = 0\<rparr>]\<rparr>"
  have t: "total_m (calculate ?b0) = 0"
    by (simp add: calculate_def CircuitBreaker_eq createBucket_def)
  from calculate_snapshot[of ?b0]
  have "total_m (calculate ?b0) = 0 \<longrightarrow> percent_m (calculate ?b0) = 0" by blast
  with t have z: "percent_m (calculate ?b0) = 0" by blast
  from calculate_snapshot[of ?b1]
  have c: "calculate ?b1 = \<lparr>total_m = spec_total (buckets ?b1), error_m = spec_errorCount (buckets ?b1),
                  percent_m = spec_errorPercent (buckets ?b1)\<rparr>"
    and le: "percent_m (calculate ?b1) \<le> 100" by blast+
  have s: "spec_total (buckets ?b1) = 20" "spec_errorCount (buckets ?b1) = 11"
    by (simp_all add: spec_total_def spec_errorCount_def)
  have "spec_errorPercent (buckets ?b1) = js_times (js_divide 11 20) 100"
    unfolding spec_errorPercent_def s by simp
  then have p: "spec_errorPercent (buckets ?b1) = 7740561859543041 / 2 ^ 47"
    using percent_11_of_20 by (simp only:)
  have "calculate ?b1 = \<lparr>total_m = 20, error_m = 11, percent_m = 7740561859543041 / 2 ^ 47\<rparr>"
    unfolding c s p ..
  with t z le show ?thesis by blast
qed

section \<open>The window\<close>

lemma counters_tick:
  "onopen_calls (tick b) = onopen_calls b" "onclose_calls (tick b) = onclose_calls b"
  "fallback_calls (tick b) = fallback_calls b" "command_calls (tick b) = command_calls b"
  by (simp_all add: tick_def Let_def setTimeout_def clearTimeout_def createNextSlidingBucket_def
      split: option.split)

lemma length_buckets_step:
  assumes "a \<noteq> ATick"
  shows "length (buckets (step b a)) = length (buckets b)"
proof (cases a)
  case (ARun c fb t)
  then show ?thesis using shape_step_measurement(1)[of b c fb t] by (simp add: shape_def)
next
  case (ACallback m st)
  then show ?thesis using shape_step_measurement(2)[of b m st] by (simp add: shape_def)
qed (use assms in \<open>simp_all add: open_cb_def close_cb_def reset_def\<close>)

lemma length_buckets_tick:
  assumes "bucketsNumber b = Fin (int n)" and "buckets b \<noteq> []" and "length (buckets b) \<le> n"
  shows "length (buckets (tick b)) = min (length (buckets b) + 1) n"
  using assms by (auto simp: tick_fields createNextSlidingBucket_buckets Let_def)

text \<open>
  When the configured bucket count is an integer \<open>n\<close> of at least 1, the window after
  any history from the constructor has one bucket for the constructor and one for each
  tick, up to \<open>n\<close>: each tick appends a bucket and, at \<open>n\<close> buckets, evicts the oldest.
\<close>

lemma window_length_exec:
  assumes "bucketsNumber b = Fin (int n)" and "buckets b \<noteq> []" and "length (buckets b) \<le> n"
  shows "length (buckets (exec b as)) = min (length (buckets b) + length (filter (\<lambda>a. a = ATick) as)) n"
proof (induction as rule: rev_induct)
  case Nil
  then show ?case using assms(3) by (simp add: exec_Nil)
next
  case (snoc a as)
  let ?b = "exec b as"
  have n: "bucketsNumber ?b = Fin (int n)" using assms(1) by (simp add: bucketsNumber_exec)
  have l: "0 < length (buckets b)" using assms(2) by simp
  then have "0 < n" using assms(3) by linarith
  with l have "0 < length (buckets ?b)" unfolding snoc by simp
  then have ne: "buckets ?b \<noteq> []" by auto
  have le: "length (buckets ?b) \<le> n" using snoc by simp
  show ?case
  proof (cases "a = ATick")
    case True
    then show ?thesis
      using length_buckets_tick[OF n ne le] snoc by (simp add: exec_snoc)
  next
    case False
    then show ?thesis using length_buckets_step[OF False, of ?b] snoc by (simp add: exec_snoc)
  qed
qed

lemma window_length_CircuitBreaker:
  assumes "bucketsNumber (CircuitBreaker opts) = Fin (int n)" and "1 \<le> n"
  shows "length (buckets (exec (CircuitBreaker opts) as))
           = min (1 + length (filter (\<lambda>a. a = ATick) as)) n"
proof -
  have "buckets (CircuitBreaker opts) = [createBucket]" by (simp add: CircuitBreaker_eq)
  then show ?thesis using window_length_exec[OF assms(1), of as] assms(2) by simp
qed

text \<open>With a bucket count that is \<^verbatim>\<open>NaN\<close> no comparison evicts, and every tick adds a bucket.\<close>

lemma window_grows_NaN:
  assumes "bucketsNumber b = NaN"
  shows "length (buckets (exec b (replicate n ATick))) = length (buckets b) + n"
proof (induction n)
  case 0
  then show ?case by (simp add: exec_Nil)
next
  case (Suc n)
  have r: "replicate (Suc n) ATick = replicate n ATick @ [ATick]"
    by (simp add: replicate_append_same)
  have "bucketsNumber (exec b (replicate n ATick)) = NaN"
    using assms by (simp add: bucketsNumber_exec)
  then show ?case
    unfolding r exec_snoc using Suc
    by (simp add: tick_fields createNextSlidingBucket_buckets)
qed

lemma half_bucket_start:
  "bucketsNumber (CircuitBreaker half_bucket_options) = Fin 0"
  "buckets (CircuitBreaker half_bucket_options) = [createBucket]"
  "state (CircuitBreaker half_bucket_options) = STATE_CLOSED"
  "fallback_calls (CircuitBreaker half_bucket_options) = 0"
  "command_calls (CircuitBreaker half_bucket_options) = 0"
  by (simp_all add: CircuitBreaker_eq half_bucket_options_def default_options_def js_half_def
      positive_or_def)

lemma half_bucket_tick:
  "buckets (tick (CircuitBreaker half_bucket_options)) = []"
  by (simp add: tick_fields createNextSlidingBucket_buckets half_bucket_start)

text \<open>
  C9 on the code. The constructor accepts \<^verbatim>\<open>bucketsNumber: 0.5\<close>, which is positive, and
  stores \<open>parseInt\<close> of it, 0: the window of the new breaker has 1 bucket, more than the
  configured count, and the first tick leaves it empty. It accepts
  \<^verbatim>\<open>bucketsNumber: Infinity\<close> and stores \<^verbatim>\<open>NaN\<close>: no tick evicts, and after \<open>n\<close> ticks
  the window has \<open>n + 1\<close> buckets. The claim says the window never exceeds the
  configured count, for every count.
\<close>

theorem window_exceeds_bucketsNumber:
  "bucketsNumber (CircuitBreaker half_bucket_options) = Fin 0 \<and>
   length (buckets (CircuitBreaker half_bucket_options)) = 1 \<and>
   nat_gt (length (buckets (CircuitBreaker half_bucket_options)))
     (bucketsNumber (CircuitBreaker half_bucket_options)) \<and>
   buckets (exec (CircuitBreaker half_bucket_options) [ATick]) = [] \<and>
   bucketsNumber (CircuitBreaker infinite_bucket_options) = NaN \<and>
   length (buckets (exec (CircuitBreaker infinite_bucket_options) (replicate n ATick))) = n + 1"
proof -
  have i: "bucketsNumber (CircuitBreaker infinite_bucket_options) = NaN"
    by (simp add: CircuitBreaker_eq infinite_bucket_options_def default_options_def
        js_Infinity_def positive_or_def)
  have "buckets (CircuitBreaker infinite_bucket_options) = [createBucket]"
    by (simp add: CircuitBreaker_eq)
  then have "length (buckets (exec (CircuitBreaker infinite_bucket_options) (replicate n ATick))) = n + 1"
    using window_grows_NaN[OF i, of n] by simp
  then show ?thesis
    using i half_bucket_tick by (simp add: half_bucket_start exec_def)
qed

section \<open>The fallback path\<close>

lemma spec_total_incr_last:
  "bs \<noteq> [] \<Longrightarrow> spec_total (incr_last p bs) = spec_total bs + (if p = OUTAGE then 0 else 1)"
proof -
  assume ne: "bs \<noteq> []"
  have "spec_total bs = spec_total (butlast bs @ [last bs])" using ne by simp
  also have "\<dots> = spec_total (butlast bs) + (success (last bs) + failure (last bs) + timeout (last bs))"
    by (simp add: spec_total_def)
  finally have a: "spec_total bs = spec_total (butlast bs) + (success (last bs) + failure (last bs) + timeout (last bs))" .
  show ?thesis unfolding a by (cases p) (simp_all add: incr_last_def spec_total_def)
qed

lemma spec_errorCount_incr_last:
  "bs \<noteq> [] \<Longrightarrow> spec_errorCount (incr_last p bs) =
     spec_errorCount bs + (if p = FAILURE \<or> p = TIMEOUT then 1 else 0)"
proof -
  assume ne: "bs \<noteq> []"
  have "spec_errorCount bs = spec_errorCount (butlast bs @ [last bs])" using ne by simp
  also have "\<dots> = spec_errorCount (butlast bs) + (failure (last bs) + timeout (last bs))"
    by (simp add: spec_errorCount_def)
  finally have a: "spec_errorCount bs = spec_errorCount (butlast bs) + (failure (last bs) + timeout (last bs))" .
  show ?thesis unfolding a by (cases p) (simp_all add: incr_last_def spec_errorCount_def)
qed

lemma calculate_outage:
  "buckets b \<noteq> [] \<Longrightarrow>
   calculate (b\<lparr>fallback_calls := n, buckets := incr_last OUTAGE (buckets b)\<rparr>) = calculate b"
  by (simp add: calculate_eq spec_errorPercent_def spec_total_incr_last spec_errorCount_incr_last)

text \<open>
  On an open breaker whose window has a bucket, \<open>run\<close> invokes the
  fallback and not the command, lets no exception escape whether the fallback throws or
  not, adds exactly 1 to the outage counter of the current bucket and changes nothing
  else of the object; the snapshot is the same and the breaker is still open. The window
  has a bucket after every history from a constructor whose bucket count is an integer of
  at least 1.
\<close>

lemma open_run_fallback_nonempty:
  assumes "isOpen b" and "buckets b \<noteq> []"
  shows "run c fb t b =
           (None, None,
            b\<lparr>fallback_calls := fallback_calls b + 1,
              buckets := butlast (buckets b)
                         @ [(last (buckets b))\<lparr>outage := outage (last (buckets b)) + 1\<rparr>]\<rparr>) \<and>
         calculate (snd (snd (run c fb t b))) = calculate b \<and>
         isOpen (snd (snd (run c fb t b)))"
proof -
  have r: "run c fb t b =
             (None, None, b\<lparr>fallback_calls := fallback_calls b + 1,
                            buckets := incr_last OUTAGE (buckets b)\<rparr>)"
    using assms by (simp add: run_def fallback_cb_eq)
  show ?thesis
    using assms(1) calculate_outage[OF assms(2), of "fallback_calls b + 1"]
    by (simp add: r isOpen_def) (simp add: incr_last_def)
qed

lemma window_nonempty_exec:
  assumes "bucketsNumber (CircuitBreaker opts) = Fin (int n)" and "1 \<le> n"
  shows "buckets (exec (CircuitBreaker opts) as) \<noteq> []"
  using window_length_CircuitBreaker[OF assms, of as] assms(2) by (cases "buckets (exec (CircuitBreaker opts) as)") auto

text \<open>
  C7 on the code. With \<^verbatim>\<open>bucketsNumber: 0.5\<close> the configured count is 0 and the first
  tick empties the window. On that breaker, opened, \<open>run\<close> invokes the fallback and not
  the command, and then a \<^verbatim>\<open>TypeError\<close> escapes from the increment of the outage
  counter, for which there is no bucket: no outage is counted, where the claim says that
  no exception reaches the caller and that the outage counter of the current bucket
  goes up by 1.
\<close>

theorem open_run_throws_on_empty_window:
  "isOpen (exec (CircuitBreaker half_bucket_options) [ATick, AOpen]) \<and>
   buckets (exec (CircuitBreaker half_bucket_options) [ATick, AOpen]) = [] \<and>
   fallback_calls (exec (CircuitBreaker half_bucket_options) [ATick, AOpen]) = 0 \<and>
   run (Command [MarkSuccess] False) (Some (Fallback False)) js_undefined
       (exec (CircuitBreaker half_bucket_options) [ATick, AOpen])
     = (Some TypeError, None,
        (exec (CircuitBreaker half_bucket_options) [ATick, AOpen])\<lparr>fallback_calls := 1\<rparr>)"
proof -
  let ?b = "exec (CircuitBreaker half_bucket_options) [ATick, AOpen]"
  have e: "?b = open_cb (tick (CircuitBreaker half_bucket_options))" by (simp add: exec_def)
  have o: "isOpen ?b" by (simp add: e open_cb_def isOpen_def strict_eq_def)
  have bs: "buckets ?b = []" by (simp add: e open_cb_def half_bucket_tick)
  have fc: "fallback_calls ?b = 0"
    by (simp add: e open_cb_def counters_tick half_bucket_start)
  have "run (Command [MarkSuccess] False) (Some (Fallback False)) js_undefined ?b
          = (Some TypeError, None, ?b\<lparr>fallback_calls := fallback_calls ?b + 1\<rparr>)"
    using o bs by (simp add: run_def fallback_cb_eq)
  then show ?thesis using o bs fc by simp
qed

section \<open>One measurement for each invocation\<close>

lemma measure_cb_forced_eq:
  "\<not> status_done st \<Longrightarrow> status_timeout st = None \<Longrightarrow> buckets b \<noteq> [] \<Longrightarrow> forced b \<noteq> JNull \<Longrightarrow>
   measure_cb p st b = (None, st\<lparr>status_done := True\<rparr>, b\<lparr>buckets := incr_last p (buckets b)\<rparr>)"
  by (simp add: measure_cb_def getLastBucket_def strict_eq_def Let_def)

lemma measure_cb_null_eq:
  "\<not> status_done st \<Longrightarrow> status_timeout st = None \<Longrightarrow> buckets b \<noteq> [] \<Longrightarrow> forced b = JNull \<Longrightarrow>
   measure_cb p st b =
     (case updateState (b\<lparr>buckets := incr_last p (buckets b)\<rparr>) of
        (Some e, b') \<Rightarrow> (Some e, st, b')
      | (None, b') \<Rightarrow> (None, st\<lparr>status_done := True\<rparr>, b'))"
  by (simp add: measure_cb_def getLastBucket_def strict_eq_def Let_def)

lemma measure_cb_empty:
  "\<not> status_done st \<Longrightarrow> status_timeout st = None \<Longrightarrow> buckets b = [] \<Longrightarrow>
   measure_cb p st b = (Some TypeError, st, b)"
  by (simp add: measure_cb_def getLastBucket_def)

lemma measure_cb_done:
  "measure_cb p st b = (None, st', b') \<Longrightarrow> status_done st'"
  by (auto simp: measure_cb_def Let_def split: if_splits option.splits prod.splits)

lemma measure_cb_noop:
  "status_done st \<Longrightarrow> measure_cb q st b = (None, st, b)"
  by (simp add: measure_cb_def)

lemma call_marks_noop:
  "status_done st \<Longrightarrow> call_marks ms st b = (None, st, b)"
  by (induction ms) (simp_all add: measure_cb_noop)

lemma call_marks_done:
  "call_marks ms st b = (None, st', b') \<Longrightarrow> ms \<noteq> [] \<or> status_done st \<Longrightarrow> status_done st'"
proof (induction ms arbitrary: st b)
  case Nil
  then show ?case by simp
next
  case (Cons m ms)
  obtain r st1 b1 where m: "measure_cb (mark_prop m) st b = (r, st1, b1)"
    by (cases "measure_cb (mark_prop m) st b") auto
  with Cons.prems(1) have r: "r = None" and rest: "call_marks ms st1 b1 = (None, st', b')"
    by (cases r; simp)+
  have "status_done st1" using m r measure_cb_done by simp
  then show ?case using Cons.IH[OF rest] by simp
qed

lemma execute_done:
  assumes "execute c t b = (None, st', b')" and "calls c \<noteq> [] \<or> throws c"
  shows "status_done st'"
proof -
  obtain st1 b1 r st2 b2 where
    cc: "call_command c st1 b1 = (r, st2, b2)" and
    ex: "execute c t b = (case r of Some ex \<Rightarrow> measure_cb FAILURE st2 b2 | None \<Rightarrow> (None, st2, b2))"
    by (rule execute_cases[where b=b and c=c and t=t]) blast
  show ?thesis
  proof (cases r)
    case None
    with ex assms(1) have eq: "st2 = st'" by simp
    from cc None have nt: "\<not> throws c"
      by (auto simp: call_command_def split: prod.splits option.splits if_splits)
    from cc None obtain b0 where "call_marks (calls c) st1 b0 = (None, st2, b2)"
      by (auto simp: call_command_def split: prod.splits option.splits if_splits)
    then show ?thesis using call_marks_done assms(2) nt eq by blast
  next
    case (Some e)
    with ex assms(1) have "measure_cb FAILURE st2 b2 = (None, st', b')" by simp
    then show ?thesis by (rule measure_cb_done)
  qed
qed

text \<open>
  When the window has a bucket and the state callbacks of the caller return normally, a
  first call of an outcome callback records its measurement and marks the status done,
  and an invocation of \<open>execute\<close> records exactly one measurement: that of the first
  callback the command calls, or a failure when the command throws before it calls any,
  or none when the command returns without calling any (a later callback may come).
\<close>

lemma updateState_returns:
  assumes "buckets b \<noteq> []" and "\<not> callback_throws (onopen b)" and "\<not> callback_throws (onclose b)"
  shows "fst (updateState b) = None \<and> buckets (snd (updateState b)) = buckets b \<and>
         onopen (snd (updateState b)) = onopen b \<and> onclose (snd (updateState b)) = onclose b"
  using assms by (simp add: updateState_def getLastBucket_def Let_def)

lemma measure_cb_commits:
  assumes "\<not> status_done st" and "status_timeout st = None" and "buckets b \<noteq> []"
    and "\<not> callback_throws (onopen b)" and "\<not> callback_throws (onclose b)"
  shows "fst (measure_cb p st b) = None \<and>
         fst (snd (measure_cb p st b)) = st\<lparr>status_done := True\<rparr> \<and>
         buckets (snd (snd (measure_cb p st b))) = incr_last p (buckets b) \<and>
         onopen (snd (snd (measure_cb p st b))) = onopen b \<and>
         onclose (snd (snd (measure_cb p st b))) = onclose b"
proof (cases "forced b = JNull")
  case True
  let ?b = "b\<lparr>buckets := incr_last p (buckets b)\<rparr>"
  obtain r b' where u: "updateState ?b = (r, b')" by (cases "updateState ?b")
  have "buckets ?b \<noteq> []" by (simp add: incr_last_def)
  from updateState_returns[OF this] assms(4,5) u
  have "r = None" "buckets b' = incr_last p (buckets b)" "onopen b' = onopen b"
    "onclose b' = onclose b" by simp_all
  then show ?thesis by (simp add: measure_cb_null_eq[OF assms(1,2,3) True] u)
next
  case False
  show ?thesis by (simp add: measure_cb_forced_eq[OF assms(1,2,3) False])
qed

lemma call_marks_first_wins:
  assumes "\<not> status_done st" and "status_timeout st = None" and "buckets b \<noteq> []"
    and "\<not> callback_throws (onopen b)" and "\<not> callback_throws (onclose b)"
  shows "fst (call_marks (m # ms) st b) = None \<and>
         fst (snd (call_marks (m # ms) st b)) = st\<lparr>status_done := True\<rparr> \<and>
         buckets (snd (snd (call_marks (m # ms) st b))) = incr_last (mark_prop m) (buckets b) \<and>
         onopen (snd (snd (call_marks (m # ms) st b))) = onopen b \<and>
         onclose (snd (snd (call_marks (m # ms) st b))) = onclose b"
proof -
  obtain r st' b' where e: "measure_cb (mark_prop m) st b = (r, st', b')"
    by (cases "measure_cb (mark_prop m) st b") auto
  from measure_cb_commits[OF assms, of "mark_prop m"] e
  have k: "r = None" "st' = st\<lparr>status_done := True\<rparr>" "buckets b' = incr_last (mark_prop m) (buckets b)"
    "onopen b' = onopen b" "onclose b' = onclose b" by simp_all
  have "status_done st'" using k(2) by simp
  then have "call_marks ms st' b' = (None, st', b')" by (rule call_marks_noop)
  then show ?thesis using e k by simp
qed

lemma execute_start:
  obtains st1 b1 where
    "buckets b1 = buckets b" and "onopen b1 = onopen b" and "onclose b1 = onclose b" and
    "\<not> status_done st1" and "status_timeout st1 = None" and
    "execute c t b =
       (case call_command c st1 b1 of
          (Some ex, st2, b2) \<Rightarrow> measure_cb FAILURE st2 b2
        | (None, st2, b2) \<Rightarrow> (None, st2, b2))"
proof (cases "num_pos (positive_or t (cb_timeout b))")
  case True
  show ?thesis
    by (rule that[of "snd (setTimeout b)"
          "\<lparr>status_done = False, status_timeout = None, status_timer = Some (fst (setTimeout b))\<rparr>"])
       (simp_all add: True execute_def setTimeout_def Let_def)
next
  case False
  show ?thesis
    by (rule that[of b "\<lparr>status_done = False, status_timeout = None, status_timer = None\<rparr>"])
       (simp_all add: False execute_def Let_def)
qed

lemma execute_first_call_wins:
  assumes "buckets b \<noteq> []" and "\<not> callback_throws (onopen b)" and "\<not> callback_throws (onclose b)"
  shows "fst (execute c t b) = None \<and>
         buckets (snd (snd (execute c t b))) =
           (case calls c of
              m # ms \<Rightarrow> incr_last (mark_prop m) (buckets b)
            | [] \<Rightarrow> if throws c then incr_last FAILURE (buckets b) else buckets b)"
proof -
  obtain st1 b1 where
    s: "buckets b1 = buckets b" "onopen b1 = onopen b" "onclose b1 = onclose b"
       "\<not> status_done st1" "status_timeout st1 = None" and
    ex: "execute c t b =
       (case call_command c st1 b1 of
          (Some ex, st2, b2) \<Rightarrow> measure_cb FAILURE st2 b2
        | (None, st2, b2) \<Rightarrow> (None, st2, b2))"
    by (rule execute_start[where b=b and c=c and t=t]) blast
  let ?b2 = "b1\<lparr>command_calls := command_calls b1 + 1\<rparr>"
  have s2: "buckets ?b2 \<noteq> []" "\<not> callback_throws (onopen ?b2)" "\<not> callback_throws (onclose ?b2)"
    using assms s by simp_all
  show ?thesis
  proof (cases "calls c")
    case Nil
    show ?thesis
      using measure_cb_commits[OF s(4,5) s2, of FAILURE] s(1)
      by (simp add: ex call_command_def Nil)
  next
    case (Cons m ms)
    obtain r st2 b2 where cm: "call_marks (m # ms) st1 ?b2 = (r, st2, b2)"
      by (cases "call_marks (m # ms) st1 ?b2") auto
    from call_marks_first_wins[OF s(4,5) s2, of m ms] cm
    have k: "r = None" "st2 = st1\<lparr>status_done := True\<rparr>"
      "buckets b2 = incr_last (mark_prop m) (buckets b)"
      using s(1) by simp_all
    have "status_done st2" using k(2) by simp
    then have "measure_cb FAILURE st2 b2 = (None, st2, b2)" by (rule measure_cb_noop)
    then show ?thesis
      using cm k by (simp add: ex call_command_def Cons del: call_marks.simps)
  qed
qed

lemma step_report_null:
  "forced b = JNull \<Longrightarrow> \<not> isOpen b \<Longrightarrow> \<not> loose_eq (state b) STATE_HALF_OPEN \<Longrightarrow>
   buckets b \<noteq> [] \<Longrightarrow> cb_timeout b = Fin 0 \<Longrightarrow>
   \<not> nat_gt (spec_total (incr_last (mark_prop m) (buckets b))) (calibration b) \<Longrightarrow>
   step b (ARun (Command [m] False) fb js_undefined) =
     b\<lparr>command_calls := command_calls b + 1, buckets := incr_last (mark_prop m) (buckets b)\<rparr>"
  by (simp add: run_def execute_def call_command_def positive_or_def js_undefined_def
      measure_cb_null_eq updateState_def calculate_eq Let_def)

lemma throwing_start:
  "CircuitBreaker throwing_onopen_options =
     \<lparr>initialized = True, slidingTimeWindow = Fin 30000, bucketsNumber = Fin 10,
      tolerance = Fin 50, calibration = Fin 5, cb_timeout = Fin 0,
      onopen = Callback True, onclose = Callback False,
      buckets = [createBucket], state = STATE_CLOSED,
      forced = JUndefined, bucketIndex = 0, slide = (Fin 30000, Fin 10), timer = Some 1,
      live_timers = [1], next_handle = 2, onopen_calls = [], onclose_calls = [],
      fallback_calls = 0, command_calls = 0\<rparr>"
  by (simp add: CircuitBreaker_eq throwing_onopen_options_def scenario_A_options_def
      default_options_def js_undefined_def js_integer_def positive_or_def)

lemma throwing_five:
  "exec (CircuitBreaker throwing_onopen_options)
     [AOpen, AReset, report_failure, report_failure, report_failure, report_failure, report_failure]
   = (CircuitBreaker throwing_onopen_options)
       \<lparr>forced := JNull,
        buckets := [\<lparr>failure = 5, success = 0, timeout = 0, outage = 0\<rparr>], command_calls := 5\<rparr>"
  unfolding exec_def report_failure_def throwing_start
  by (simp add: step_report_null open_cb_def reset_def isOpen_def strict_eq_def incr_last_def
      createBucket_def spec_total_def del: step.simps(1))

text \<open>
  C4 on the code. The callback increments its counter and evaluates the state before it
  marks the status done, so an \<^verbatim>\<open>onopen\<close> that throws leaves the measurement recorded
  and the invocation unresolved. On a breaker with calibration 5, tolerance 50 and such
  an \<^verbatim>\<open>onopen\<close>, after \<open>open\<close>, \<open>reset\<close> and five invocations that each reported a
  failure, a sixth invocation whose command calls the failure callback once has that
  failure counted (6 failures, the breaker opens, \<^verbatim>\<open>onopen\<close> throws), then the handler of
  \<open>execute\<close> calls the failure callback of the same invocation, which counts again (7
  failures for 6 invocations) and throws out of \<open>run\<close>; the status is still not done,
  so a later callback of that invocation would count once more. The claim says that
  after the first recorded outcome every later callback of the invocation leaves the
  counters unchanged.
\<close>

theorem throwing_onopen_counts_twice:
  "buckets (exec (CircuitBreaker throwing_onopen_options)
     [AOpen, AReset, report_failure, report_failure, report_failure, report_failure, report_failure])
     = [\<lparr>failure = 5, success = 0, timeout = 0, outage = 0\<rparr>] \<and>
   run (Command [MarkFailure] False) None js_undefined
     (exec (CircuitBreaker throwing_onopen_options)
        [AOpen, AReset, report_failure, report_failure, report_failure, report_failure, report_failure])
     = (Some UserError,
        Some \<lparr>status_done = False, status_timeout = None, status_timer = None\<rparr>,
        (CircuitBreaker throwing_onopen_options)
          \<lparr>forced := JNull, command_calls := 6,
           buckets := [\<lparr>failure = 7, success = 0, timeout = 0, outage = 0\<rparr>],
           state := STATE_OPEN,
           onopen_calls := [\<lparr>total_m = 6, error_m = 6, percent_m = 100\<rparr>,
                            \<lparr>total_m = 7, error_m = 7, percent_m = 100\<rparr>]\<rparr>)"
proof -
  let ?st = "\<lparr>status_done = False, status_timeout = None, status_timer = None\<rparr>"
  let ?b0 = "CircuitBreaker throwing_onopen_options"
  let ?b5 = "?b0\<lparr>forced := JNull,
        buckets := [\<lparr>failure = 5, success = 0, timeout = 0, outage = 0\<rparr>], command_calls := 6\<rparr>"
  let ?b6 = "?b0\<lparr>forced := JNull, command_calls := 6,
        buckets := [\<lparr>failure = 6, success = 0, timeout = 0, outage = 0\<rparr>],
        state := STATE_OPEN, onopen_calls := [\<lparr>total_m = 6, error_m = 6, percent_m = 100\<rparr>]\<rparr>"
  let ?b7 = "?b0\<lparr>forced := JNull, command_calls := 6,
        buckets := [\<lparr>failure = 7, success = 0, timeout = 0, outage = 0\<rparr>],
        state := STATE_OPEN,
        onopen_calls := [\<lparr>total_m = 6, error_m = 6, percent_m = 100\<rparr>,
                         \<lparr>total_m = 7, error_m = 7, percent_m = 100\<rparr>]\<rparr>"
  have m1: "measure_cb FAILURE ?st ?b5 = (Some UserError, ?st, ?b6)"
    unfolding throwing_start
    by (simp add: measure_cb_null_eq updateState_def calculate_def incr_last_def Let_def
        js_divide_def js_times_def)
  have m2: "measure_cb FAILURE ?st ?b6 = (Some UserError, ?st, ?b7)"
    unfolding throwing_start
    by (simp add: measure_cb_null_eq updateState_def calculate_def incr_last_def Let_def
        js_divide_def js_times_def)
  have c: "cb_timeout ?b0 = Fin 0" "state ?b0 = STATE_CLOSED" "command_calls ?b0 = 0"
    by (simp_all add: throwing_start)
  have "run (Command [MarkFailure] False) None js_undefined
          (?b0\<lparr>forced := JNull,
               buckets := [\<lparr>failure = 5, success = 0, timeout = 0, outage = 0\<rparr>],
               command_calls := 5\<rparr>)
        = (Some UserError, Some ?st, ?b7)"
    using m1 m2 c
    by (simp add: run_def isOpen_def strict_eq_def execute_def call_command_def positive_or_def
        js_undefined_def)
  then show ?thesis unfolding throwing_five by simp
qed

section \<open>Manual override and reset\<close>

text \<open>
  C6, as the claim states it, fails: \<open>open\<close> records the current state into \<open>forced\<close>
  also when an override is active, so after two calls of \<open>open\<close> on a new (closed)
  breaker \<open>reset\<close> restores the open state, not the closed state of the time of the
  first override.
\<close>

theorem repeated_open_counterexample:
  "state (CircuitBreaker default_options) = STATE_CLOSED \<and>
   state (exec (CircuitBreaker default_options) [AOpen, AOpen, AReset]) = STATE_OPEN"
  by (simp add: exec_def open_cb_def reset_def CircuitBreaker_eq)

text \<open>
  C6, amended. \<open>open\<close> and \<open>close\<close> record the current state into \<open>forced\<close>
  unconditionally: after any history, a call of \<open>open\<close> or \<open>close\<close> leaves in
  \<open>forced\<close> the state of just before that call; runs, callbacks and ticks after it
  leave \<open>forced\<close> alone; and the next \<open>reset\<close> restores that state and sets
  \<open>forced\<close> to \<^verbatim>\<open>null\<close>. After several overrides, that is the state of just before
  the last of them.
\<close>

theorem reset_restores_state_before_last_override:
  assumes "a = AOpen \<or> a = AClose"
    and "AOpen \<notin> set bs" and "AClose \<notin> set bs" and "AReset \<notin> set bs"
  shows "forced (exec b (as @ a # bs)) = state (exec b as) \<and>
         state (exec b (as @ a # bs @ [AReset])) = state (exec b as) \<and>
         forced (exec b (as @ a # bs @ [AReset])) = JNull"
proof -
  have e: "exec b (as @ a # bs) = exec (step (exec b as) a) bs"
    by (simp add: exec_def)
  have "forced (step (exec b as) a) = state (exec b as)"
    using assms(1) by (auto simp: open_cb_def close_cb_def)
  then have f: "forced (exec b (as @ a # bs)) = state (exec b as)"
    using forced_exec[OF assms(2,3,4), of "step (exec b as) a"] by (simp add: e)
  have "exec b (as @ a # bs @ [AReset]) = reset (exec b (as @ a # bs))"
    by (simp add: exec_def)
  then show ?thesis using f by (simp add: reset_def)
qed

theorem reset_restores_state_before_last_override_witness:
  "state (exec (CircuitBreaker default_options) [AOpen, AClose, ATick, AReset]) = STATE_OPEN \<and>
   forced (exec (CircuitBreaker default_options) [AOpen, AClose, ATick]) = STATE_OPEN \<and>
   forced (exec (CircuitBreaker default_options) [AOpen, AClose, ATick, AReset]) = JNull"
proof -
  have s: "state (exec (CircuitBreaker default_options) [AOpen]) = STATE_OPEN"
    by (simp add: exec_def open_cb_def)
  show ?thesis
    using s reset_restores_state_before_last_override[of AClose "[ATick]"
        "CircuitBreaker default_options" "[AOpen]"]
    by simp
qed

section \<open>Measurements before a reset\<close>

lemma callbacks_step:
  assumes "forced b \<noteq> JNull"
  shows "onopen_calls (step b a) = onopen_calls b \<and> onclose_calls (step b a) = onclose_calls b"
proof (cases a)
  case (ARun c fb t)
  then show ?thesis using verdict_step_measurement(1)[OF assms, of c fb t] by (simp add: verdict_def)
next
  case (ACallback m st)
  then show ?thesis using verdict_step_measurement(2)[OF assms, of m st] by (simp add: verdict_def)
qed (simp_all add: open_cb_def close_cb_def reset_def counters_tick)

lemma state_step:
  assumes "forced b \<noteq> JNull" and "state (step b a) \<noteq> state b"
  shows "a = AOpen \<or> a = AClose \<or> a = AReset \<or>
         (a = ATick \<and> nat_gt (bucketIndex b + 1) (bucketsNumber b) \<and> isOpen b)"
proof (cases a)
  case (ARun c fb t)
  then show ?thesis
    using assms verdict_step_measurement(1)[OF assms(1), of c fb t] by (simp add: verdict_def)
next
  case (ACallback m st)
  then show ?thesis
    using assms verdict_step_measurement(2)[OF assms(1), of m st] by (simp add: verdict_def)
next
  case ATick
  then show ?thesis using assms(2) by (auto simp: tick_state split: if_splits)
qed simp_all

lemma forced_enumerated_exec:
  assumes "AReset \<notin> set as" and "unreset b" and "AOpen \<in> set as \<or> AClose \<in> set as"
  shows "enumerated (forced (exec b as))"
  using assms
proof (induction as rule: rev_induct)
  case Nil
  then show ?case by simp
next
  case (snoc a as)
  have nr: "AReset \<notin> set as" using snoc.prems(1) by simp
  have un: "unreset (exec b as)" using unreset_exec[OF nr snoc.prems(2)] .
  show ?case
  proof (cases "a = AOpen \<or> a = AClose")
    case True
    then have "forced (step (exec b as) a) = state (exec b as)"
      by (auto simp: open_cb_def close_cb_def)
    then show ?thesis using un by (simp add: exec_snoc unreset_def)
  next
    case False
    then have "AOpen \<in> set as \<or> AClose \<in> set as" using snoc.prems(3) by auto
    then have ih: "enumerated (forced (exec b as))" using snoc.IH nr snoc.prems(2) by blast
    have "a \<noteq> AReset" using snoc.prems(1) by auto
    then have "forced (step (exec b as) a) = forced (exec b as)"
      using False by (intro forced_step) auto
    then show ?thesis using ih by (simp add: exec_snoc)
  qed
qed

text \<open>
  C2, as the claim states it, fails in its first clause: on a breaker on which \<open>reset\<close>
  has never been called \<open>forced\<close> need not hold its initial value. After \<open>open\<close> on a
  new breaker it holds the closed state that \<open>open\<close> recorded.
\<close>

theorem forced_after_open_counterexample:
  "AReset \<notin> set [AOpen] \<and>
   forced (CircuitBreaker default_options) = JUndefined \<and>
   forced (exec (CircuitBreaker default_options) [AOpen]) = STATE_CLOSED"
  by (simp add: exec_def open_cb_def CircuitBreaker_eq)

text \<open>
  C2, amended. On a breaker on which \<open>reset\<close> has never been called, after any history
  of runs, callbacks, ticks, \<open>open\<close> and \<open>close\<close>, \<open>forced\<close> is not \<^verbatim>\<open>null\<close>: it
  holds its initial \<^verbatim>\<open>undefined\<close> as long as neither \<open>open\<close> nor \<open>close\<close> has been
  called, and one of the three states, which they recorded, once one of them has. So a
  measurement that commits only increments its counter in the last bucket and marks the
  status done, with no state evaluation (on a window left without a bucket the callback
  throws a \<^verbatim>\<open>TypeError\<close> and changes nothing); the state changes only by \<open>open\<close>,
  \<open>close\<close>, \<open>reset\<close> or a tick that rolls the rotation counter over on an open
  breaker; and no action invokes \<open>onopen\<close> or \<open>onclose\<close>.
\<close>

theorem no_evaluation_before_reset:
  assumes "AReset \<notin> set as" and "b = exec (CircuitBreaker opts) as"
  shows "forced b \<noteq> JNull \<and>
         (forced b = JUndefined \<or> forced b = STATE_OPEN \<or> forced b = STATE_HALF_OPEN \<or>
          forced b = STATE_CLOSED) \<and>
         (AOpen \<notin> set as \<and> AClose \<notin> set as \<longrightarrow> forced b = JUndefined) \<and>
         (AOpen \<in> set as \<or> AClose \<in> set as \<longrightarrow>
            forced b = STATE_OPEN \<or> forced b = STATE_HALF_OPEN \<or> forced b = STATE_CLOSED) \<and>
         (\<forall>p st. \<not> status_done st \<and> status_timeout st = None \<longrightarrow>
            measure_cb p st b =
              (if buckets b = [] then (Some TypeError, st, b)
               else (None, st\<lparr>status_done := True\<rparr>, b\<lparr>buckets := incr_last p (buckets b)\<rparr>))) \<and>
         (\<forall>a. state (step b a) \<noteq> state b \<longrightarrow>
            a = AOpen \<or> a = AClose \<or> a = AReset \<or>
            (a = ATick \<and> nat_gt (bucketIndex b + 1) (bucketsNumber b) \<and> isOpen b)) \<and>
         (\<forall>a. onopen_calls (step b a) = onopen_calls b \<and> onclose_calls (step b a) = onclose_calls b)"
proof -
  have un: "unreset b"
    using assms unreset_exec[OF assms(1) unreset_CircuitBreaker] by simp
  then have f: "forced b \<noteq> JNull" by (rule unreset_forced)
  from un have e: "forced b = JUndefined \<or> forced b = STATE_OPEN \<or> forced b = STATE_HALF_OPEN \<or>
      forced b = STATE_CLOSED"
    by (simp add: unreset_def enumerated_def)
  have u: "forced b = JUndefined" if "AOpen \<notin> set as" "AClose \<notin> set as"
    using forced_exec[OF that assms(1), of "CircuitBreaker opts"] assms(2)
    by (simp add: CircuitBreaker_eq)
  have o: "forced b = STATE_OPEN \<or> forced b = STATE_HALF_OPEN \<or> forced b = STATE_CLOSED"
    if "AOpen \<in> set as \<or> AClose \<in> set as"
    using forced_enumerated_exec[OF assms(1) unreset_CircuitBreaker that, of opts] assms(2)
    by (simp add: enumerated_def)
  have m: "measure_cb p st b =
      (if buckets b = [] then (Some TypeError, st, b)
       else (None, st\<lparr>status_done := True\<rparr>, b\<lparr>buckets := incr_last p (buckets b)\<rparr>))"
    if "\<not> status_done st" "status_timeout st = None" for p st
    using that f by (simp add: measure_cb_forced_eq measure_cb_empty)
  from f e u o m state_step[OF f] callbacks_step[OF f] show ?thesis by blast
qed

lemma step_report_unforced:
  "forced b \<noteq> JNull \<Longrightarrow> \<not> isOpen b \<Longrightarrow> buckets b \<noteq> [] \<Longrightarrow> cb_timeout b = Fin 0 \<Longrightarrow>
   step b (ARun (Command [m] False) fb js_undefined) =
     b\<lparr>command_calls := command_calls b + 1, buckets := incr_last (mark_prop m) (buckets b)\<rparr>"
  by (simp add: run_def execute_def call_command_def positive_or_def js_undefined_def
      measure_cb_forced_eq)

lemma scenario_A_start:
  "CircuitBreaker scenario_A_options =
     \<lparr>initialized = True, slidingTimeWindow = Fin 30000, bucketsNumber = Fin 10,
      tolerance = Fin 50, calibration = Fin 5, cb_timeout = Fin 0,
      onopen = Callback False, onclose = Callback False,
      buckets = [createBucket], state = STATE_CLOSED,
      forced = JUndefined, bucketIndex = 0, slide = (Fin 30000, Fin 10), timer = Some 1,
      live_timers = [1], next_handle = 2, onopen_calls = [], onclose_calls = [],
      fallback_calls = 0, command_calls = 0\<rparr>"
  by (simp add: CircuitBreaker_eq scenario_A_options_def default_options_def js_undefined_def
      js_integer_def positive_or_def)

lemma scenario_A_five:
  "exec (CircuitBreaker scenario_A_options)
     [report_failure, report_failure, report_failure, report_failure, report_failure]
   = (CircuitBreaker scenario_A_options)
       \<lparr>buckets := [\<lparr>failure = 5, success = 0, timeout = 0, outage = 0\<rparr>], command_calls := 5\<rparr>"
  unfolding exec_def report_failure_def scenario_A_start
  by (simp add: step_report_unforced isOpen_def strict_eq_def incr_last_def createBucket_def
      del: step.simps)

theorem no_evaluation_before_reset_witness:
  "AReset \<notin> set [report_failure, report_failure, report_failure, report_failure, report_failure] \<and>
   forced (exec (CircuitBreaker scenario_A_options)
     [report_failure, report_failure, report_failure, report_failure, report_failure]) = JUndefined \<and>
   state (step (exec (CircuitBreaker scenario_A_options)
       [report_failure, report_failure, report_failure, report_failure, report_failure])
     report_failure) = STATE_CLOSED \<and>
   onopen_calls (step (exec (CircuitBreaker scenario_A_options)
       [report_failure, report_failure, report_failure, report_failure, report_failure])
     report_failure) = [] \<and>
   measure_cb FAILURE \<lparr>status_done = False, status_timeout = None, status_timer = None\<rparr>
     (exec (CircuitBreaker scenario_A_options)
       [report_failure, report_failure, report_failure, report_failure, report_failure])
     = (None, \<lparr>status_done = True, status_timeout = None, status_timer = None\<rparr>,
        (CircuitBreaker scenario_A_options)
          \<lparr>buckets := [\<lparr>failure = 6, success = 0, timeout = 0, outage = 0\<rparr>],
           command_calls := 5\<rparr>)"
proof -
  let ?as = "[report_failure, report_failure, report_failure, report_failure, report_failure]"
  let ?b = "exec (CircuitBreaker scenario_A_options) ?as"
  let ?st = "\<lparr>status_done = False, status_timeout = None, status_timer = None\<rparr>"
  have h: "AReset \<notin> set ?as" by (simp add: report_failure_def)
  have o: "AOpen \<notin> set ?as \<and> AClose \<notin> set ?as" by (simp add: report_failure_def)
  have s: "state ?b = STATE_CLOSED" "onopen_calls ?b = []"
    "buckets ?b = [\<lparr>failure = 5, success = 0, timeout = 0, outage = 0\<rparr>]"
    unfolding scenario_A_five by (simp_all add: scenario_A_start)
  note fact = no_evaluation_before_reset[OF h refl, of scenario_A_options]
  from fact o have u: "forced ?b = JUndefined" by blast
  from fact have "state (step ?b report_failure) \<noteq> state ?b \<longrightarrow>
      report_failure = AOpen \<or> report_failure = AClose \<or> report_failure = AReset \<or>
      (report_failure = ATick \<and> nat_gt (bucketIndex ?b + 1) (bucketsNumber ?b) \<and> isOpen ?b)"
    by blast
  then have st: "state (step ?b report_failure) = STATE_CLOSED"
    using s(1) by (simp add: report_failure_def)
  from fact have "onopen_calls (step ?b report_failure) = onopen_calls ?b" by blast
  then have oc: "onopen_calls (step ?b report_failure) = []" using s(2) by simp
  from fact have "\<not> status_done ?st \<and> status_timeout ?st = None \<longrightarrow>
      measure_cb FAILURE ?st ?b =
        (if buckets ?b = [] then (Some TypeError, ?st, ?b)
         else (None, ?st\<lparr>status_done := True\<rparr>, ?b\<lparr>buckets := incr_last FAILURE (buckets ?b)\<rparr>))"
    by blast
  then have "measure_cb FAILURE ?st ?b =
      (None, ?st\<lparr>status_done := True\<rparr>, ?b\<lparr>buckets := incr_last FAILURE (buckets ?b)\<rparr>)"
    using s(3) by simp
  then have mc: "measure_cb FAILURE ?st ?b =
      (None, \<lparr>status_done = True, status_timeout = None, status_timer = None\<rparr>,
        (CircuitBreaker scenario_A_options)
          \<lparr>buckets := [\<lparr>failure = 6, success = 0, timeout = 0, outage = 0\<rparr>],
           command_calls := 5\<rparr>)"
    unfolding s(3) unfolding scenario_A_five by (simp add: incr_last_def)
  from h u st oc mc show ?thesis by blast
qed

lemma scenario_A_state:
  "exec (CircuitBreaker scenario_A_options)
     [report_failure, report_failure, report_failure, report_failure, report_failure, report_failure]
   = (CircuitBreaker scenario_A_options)
       \<lparr>buckets := [\<lparr>failure = 6, success = 0, timeout = 0, outage = 0\<rparr>], command_calls := 6\<rparr>"
  unfolding exec_def report_failure_def scenario_A_start
  by (simp add: step_report_unforced isOpen_def strict_eq_def incr_last_def createBucket_def
      del: step.simps)

text \<open>
  C1 on the code. A new breaker with calibration 5 and tolerance 50 on which six
  invocations each report a failure has the snapshot total 6, error 6, percent 100, as
  the claim says; but \<open>forced\<close> is still \<^verbatim>\<open>undefined\<close>, so no measurement evaluated the
  state: the breaker is still closed and \<open>onopen\<close> was never invoked, where the claim
  says it opens and invokes \<open>onopen\<close> once.
\<close>

theorem scenario_A_stays_closed:
  "calculate (exec (CircuitBreaker scenario_A_options)
     [report_failure, report_failure, report_failure, report_failure, report_failure, report_failure])
     = \<lparr>total_m = 6, error_m = 6, percent_m = 100\<rparr> \<and>
   forced (exec (CircuitBreaker scenario_A_options)
     [report_failure, report_failure, report_failure, report_failure, report_failure, report_failure])
     = JUndefined \<and>
   state (exec (CircuitBreaker scenario_A_options)
     [report_failure, report_failure, report_failure, report_failure, report_failure, report_failure])
     = STATE_CLOSED \<and>
   onopen_calls (exec (CircuitBreaker scenario_A_options)
     [report_failure, report_failure, report_failure, report_failure, report_failure, report_failure])
     = []"
  unfolding scenario_A_state
  by (simp add: calculate_def scenario_A_start js_divide_def js_times_def)

section \<open>Reset without an override\<close>

lemma forced_exec_no_override:
  "AOpen \<notin> set as \<Longrightarrow> AClose \<notin> set as \<Longrightarrow>
   forced (exec b as) = (if AReset \<in> set as then JNull else forced b)"
proof (induction as rule: rev_induct)
  case Nil
  then show ?case by (simp add: exec_Nil)
next
  case (snoc a as)
  show ?case
  proof (cases "a = AReset")
    case True
    then show ?thesis by (simp add: exec_snoc reset_def)
  next
    case False
    then have "forced (step (exec b as) a) = forced (exec b as)"
      using snoc.prems by (intro forced_step) auto
    then show ?thesis using snoc False by (simp add: exec_snoc)
  qed
qed

lemma updateState_not_half_open:
  assumes "\<not> loose_eq (state b) STATE_HALF_OPEN"
  shows "updateState b =
           (if nat_gt (spec_total (buckets b)) (calibration b) \<and>
               rat_gt (spec_errorPercent (buckets b)) (tolerance b)
            then (if callback_throws (onopen b) then Some UserError else None,
                  b\<lparr>state := STATE_OPEN, onopen_calls := onopen_calls b @ [calculate b]\<rparr>)
            else (None, b))"
  using assms by (simp add: updateState_def Let_def calculate_eq)

text \<open>
  C10, as the claim states it, fails in its first clause: on a breaker on which neither
  \<open>open\<close> nor \<open>close\<close> has been called, \<open>forced\<close> need not be \<^verbatim>\<open>undefined\<close>. After a
  first \<open>reset\<close> on a new breaker it is \<^verbatim>\<open>null\<close>, and a second \<open>reset\<close> copies that
  \<^verbatim>\<open>null\<close> into the state.
\<close>

theorem second_reset_copies_null:
  "AOpen \<notin> set [AReset] \<and> AClose \<notin> set [AReset] \<and>
   forced (CircuitBreaker default_options) = JUndefined \<and>
   forced (exec (CircuitBreaker default_options) [AReset]) = JNull \<and>
   state (reset (exec (CircuitBreaker default_options) [AReset])) = JNull"
  by (simp add: exec_def reset_def CircuitBreaker_eq)

text \<open>
  C10, amended. On a breaker on which neither \<open>open\<close> nor \<open>close\<close> has been called,
  after any history, \<open>reset\<close> copies \<open>forced\<close> into the state: the \<^verbatim>\<open>undefined\<close> of
  construction when \<open>reset\<close> was not called before, \<^verbatim>\<open>null\<close> when it was, either way a
  value outside the enumeration of states; it sets \<open>forced\<close> to \<^verbatim>\<open>null\<close>; and the
  breaker is not open. From then on a first callback of an invocation increments its
  counter and then evaluates the state with \<open>updateState\<close>, which marks the status done
  only when the evaluation returns normally (on a window left without a bucket the
  callback throws a \<^verbatim>\<open>TypeError\<close> before it counts). That evaluation, whatever the
  buckets, opens the breaker and invokes \<^verbatim>\<open>onopen\<close> with the snapshot exactly when the
  total exceeds the calibration and the percentage the tolerance, passing on an
  exception of \<^verbatim>\<open>onopen\<close>, and otherwise leaves the breaker as it is.
\<close>

theorem reset_without_override:
  assumes "AOpen \<notin> set as" and "AClose \<notin> set as" and "b = exec (CircuitBreaker opts) as"
  shows "forced b = (if AReset \<in> set as then JNull else JUndefined) \<and>
         state (reset b) = forced b \<and>
         state (reset b) \<noteq> STATE_OPEN \<and> state (reset b) \<noteq> STATE_HALF_OPEN \<and>
         state (reset b) \<noteq> STATE_CLOSED \<and>
         forced (reset b) = JNull \<and> \<not> isOpen (reset b) \<and>
         (\<forall>p st. \<not> status_done st \<and> status_timeout st = None \<longrightarrow>
            measure_cb p st (reset b) =
              (if buckets b = [] then (Some TypeError, st, reset b)
               else case updateState ((reset b)\<lparr>buckets := incr_last p (buckets b)\<rparr>) of
                      (Some e, b') \<Rightarrow> (Some e, st, b')
                    | (None, b') \<Rightarrow> (None, st\<lparr>status_done := True\<rparr>, b'))) \<and>
         (\<forall>bs. updateState ((reset b)\<lparr>buckets := bs\<rparr>) =
            (if nat_gt (spec_total bs) (calibration b) \<and> rat_gt (spec_errorPercent bs) (tolerance b)
             then (if callback_throws (onopen b) then Some UserError else None,
                   (reset b)\<lparr>buckets := bs, state := STATE_OPEN,
                             onopen_calls := onopen_calls b @
                               [\<lparr>total_m = spec_total bs, error_m = spec_errorCount bs,
                                 percent_m = spec_errorPercent bs\<rparr>]\<rparr>)
             else (None, (reset b)\<lparr>buckets := bs\<rparr>)))"
proof -
  have u: "forced b = (if AReset \<in> set as then JNull else JUndefined)"
    using forced_exec_no_override[OF assms(1,2), of "CircuitBreaker opts"] assms(3)
    by (simp add: CircuitBreaker_eq)
  have r: "state (reset b) = forced b" "forced (reset b) = JNull" "buckets (reset b) = buckets b"
    by (simp_all add: reset_def)
  have nh: "\<not> loose_eq (state (reset b)) STATE_HALF_OPEN"
    using u r(1) by (simp split: if_splits)
  have m: "measure_cb p st (reset b) =
          (if buckets b = [] then (Some TypeError, st, reset b)
           else case updateState ((reset b)\<lparr>buckets := incr_last p (buckets b)\<rparr>) of
                  (Some e, b') \<Rightarrow> (Some e, st, b')
                | (None, b') \<Rightarrow> (None, st\<lparr>status_done := True\<rparr>, b'))"
    if "\<not> status_done st" "status_timeout st = None" for p st
    using that r by (simp add: measure_cb_null_eq measure_cb_empty)
  have e: "updateState ((reset b)\<lparr>buckets := bs\<rparr>) =
            (if nat_gt (spec_total bs) (calibration b) \<and> rat_gt (spec_errorPercent bs) (tolerance b)
             then (if callback_throws (onopen b) then Some UserError else None,
                   (reset b)\<lparr>buckets := bs, state := STATE_OPEN,
                             onopen_calls := onopen_calls b @
                               [\<lparr>total_m = spec_total bs, error_m = spec_errorCount bs,
                                 percent_m = spec_errorPercent bs\<rparr>]\<rparr>)
             else (None, (reset b)\<lparr>buckets := bs\<rparr>))" for bs
  proof -
    have "\<not> loose_eq (state ((reset b)\<lparr>buckets := bs\<rparr>)) STATE_HALF_OPEN" using nh by simp
    from updateState_not_half_open[OF this] show ?thesis
      by (simp add: calculate_eq reset_def)
  qed
  from u r(1,2) m e show ?thesis by (simp add: isOpen_def strict_eq_def split: if_splits)
qed

theorem reset_without_override_witness:
  "forced (exec (CircuitBreaker scenario_A_options)
     [report_failure, report_failure, report_failure, report_failure, report_failure]) = JUndefined \<and>
   state (reset (exec (CircuitBreaker scenario_A_options)
     [report_failure, report_failure, report_failure, report_failure, report_failure])) = JUndefined \<and>
   \<not> isOpen (reset (exec (CircuitBreaker scenario_A_options)
     [report_failure, report_failure, report_failure, report_failure, report_failure])) \<and>
   measure_cb FAILURE \<lparr>status_done = False, status_timeout = None, status_timer = None\<rparr>
       (reset (exec (CircuitBreaker scenario_A_options)
          [report_failure, report_failure, report_failure, report_failure, report_failure]))
     = (None, \<lparr>status_done = True, status_timeout = None, status_timer = None\<rparr>,
        (CircuitBreaker scenario_A_options)
          \<lparr>buckets := [\<lparr>failure = 6, success = 0, timeout = 0, outage = 0\<rparr>], command_calls := 5,
           forced := JNull, state := STATE_OPEN,
           onopen_calls := [\<lparr>total_m = 6, error_m = 6, percent_m = 100\<rparr>]\<rparr>)"
proof -
  let ?as = "[report_failure, report_failure, report_failure, report_failure, report_failure]"
  let ?b = "exec (CircuitBreaker scenario_A_options) ?as"
  let ?st = "\<lparr>status_done = False, status_timeout = None, status_timer = None\<rparr>"
  let ?bs = "[\<lparr>failure = 6, success = 0, timeout = 0, outage = 0\<rparr>]"
  have h: "AOpen \<notin> set ?as" "AClose \<notin> set ?as"
    by (simp_all add: report_failure_def)
  have n: "AReset \<notin> set ?as" by (simp add: report_failure_def)
  note fact = reset_without_override[OF h refl, of scenario_A_options]
  from fact have "forced ?b = (if AReset \<in> set ?as then JNull else JUndefined)" by blast
  with n have f: "forced ?b = JUndefined" by simp
  from fact have "state (reset ?b) = forced ?b" "\<not> isOpen (reset ?b)" by blast+
  with f have a: "state (reset ?b) = JUndefined" "\<not> isOpen (reset ?b)" by simp_all
  have bs: "buckets ?b = [\<lparr>failure = 5, success = 0, timeout = 0, outage = 0\<rparr>]"
    "calibration ?b = Fin 5" "tolerance ?b = Fin 50" "onopen ?b = Callback False"
    "onopen_calls ?b = []"
    unfolding scenario_A_five by (simp_all add: scenario_A_start)
  have i: "incr_last FAILURE (buckets ?b) = ?bs" by (simp add: bs incr_last_def)
  from fact have "\<not> status_done ?st \<and> status_timeout ?st = None \<longrightarrow>
      measure_cb FAILURE ?st (reset ?b) =
        (if buckets ?b = [] then (Some TypeError, ?st, reset ?b)
         else case updateState ((reset ?b)\<lparr>buckets := incr_last FAILURE (buckets ?b)\<rparr>) of
                (Some e, b') \<Rightarrow> (Some e, ?st, b')
              | (None, b') \<Rightarrow> (None, ?st\<lparr>status_done := True\<rparr>, b'))"
    by blast
  then have m: "measure_cb FAILURE ?st (reset ?b) =
        (case updateState ((reset ?b)\<lparr>buckets := ?bs\<rparr>) of
                (Some e, b') \<Rightarrow> (Some e, ?st, b')
              | (None, b') \<Rightarrow> (None, ?st\<lparr>status_done := True\<rparr>, b'))"
    unfolding i using bs(1) by simp
  have sp: "spec_total ?bs = 6" "spec_errorCount ?bs = 6" "spec_errorPercent ?bs = 100"
    by (simp_all add: spec_total_def spec_errorCount_def spec_errorPercent_def js_divide_def
        js_times_def)
  from fact have "updateState ((reset ?b)\<lparr>buckets := ?bs\<rparr>) =
            (if nat_gt (spec_total ?bs) (calibration ?b) \<and> rat_gt (spec_errorPercent ?bs) (tolerance ?b)
             then (if callback_throws (onopen ?b) then Some UserError else None,
                   (reset ?b)\<lparr>buckets := ?bs, state := STATE_OPEN,
                             onopen_calls := onopen_calls ?b @
                               [\<lparr>total_m = spec_total ?bs, error_m = spec_errorCount ?bs,
                                 percent_m = spec_errorPercent ?bs\<rparr>]\<rparr>)
             else (None, (reset ?b)\<lparr>buckets := ?bs\<rparr>))"
    by blast
  then have e: "updateState ((reset ?b)\<lparr>buckets := ?bs\<rparr>) =
      (None, (reset ?b)\<lparr>buckets := ?bs, state := STATE_OPEN,
                       onopen_calls := [\<lparr>total_m = 6, error_m = 6, percent_m = 100\<rparr>]\<rparr>)"
    unfolding sp bs by simp
  have "measure_cb FAILURE ?st (reset ?b) =
      (None, \<lparr>status_done = True, status_timeout = None, status_timer = None\<rparr>,
        (CircuitBreaker scenario_A_options)
          \<lparr>buckets := [\<lparr>failure = 6, success = 0, timeout = 0, outage = 0\<rparr>], command_calls := 5,
           forced := JNull, state := STATE_OPEN,
           onopen_calls := [\<lparr>total_m = 6, error_m = 6, percent_m = 100\<rparr>]\<rparr>)"
    unfolding m e unfolding scenario_A_five by (simp add: reset_def scenario_A_start)
  with f a show ?thesis by blast
qed

section \<open>Rollover under a manual override\<close>

lemma tick_bucketIndex:
  "bucketIndex (tick b) =
     (if nat_gt (bucketIndex b + 1) (bucketsNumber b) then 0 else bucketIndex b + 1)"
  by (simp add: tick_def Let_def setTimeout_def clearTimeout_def createNextSlidingBucket_fields
      isOpen_def split: option.split)

lemma ticks_below_rollover:
  "bucketsNumber b = Fin (int n) \<Longrightarrow> bucketIndex b + k \<le> n \<Longrightarrow>
   bucketIndex (exec b (replicate k ATick)) = bucketIndex b + k \<and>
   state (exec b (replicate k ATick)) = state b \<and>
   forced (exec b (replicate k ATick)) = forced b \<and>
   bucketsNumber (exec b (replicate k ATick)) = bucketsNumber b"
proof (induction k)
  case 0
  then show ?case by (simp add: exec_Nil)
next
  case (Suc k)
  have r: "replicate (Suc k) ATick = replicate k ATick @ [ATick]"
    by (simp add: replicate_append_same)
  from Suc show ?case
    unfolding r exec_snoc by (simp add: tick_bucketIndex tick_state tick_fields)
qed

text \<open>
  For every integer bucket count \<open>n\<close>, \<open>open\<close> and then \<open>n + 1\<close> ticks leave the
  breaker half open with the override still recorded.
\<close>

lemma forced_open_rollover_any:
  assumes "bucketsNumber (CircuitBreaker opts) = Fin (int n)"
  shows "forced (exec (CircuitBreaker opts) (AOpen # replicate n ATick @ [ATick])) = STATE_CLOSED \<and>
         state (exec (CircuitBreaker opts) (AOpen # replicate n ATick @ [ATick])) = STATE_HALF_OPEN"
proof -
  let ?b0 = "open_cb (CircuitBreaker opts)"
  have b0: "bucketIndex ?b0 = 0" "state ?b0 = STATE_OPEN" "forced ?b0 = STATE_CLOSED"
    by (simp_all add: open_cb_def CircuitBreaker_eq)
  have bn: "bucketsNumber ?b0 = Fin (int n)" using assms by (simp add: open_cb_def)
  have e: "exec (CircuitBreaker opts) (AOpen # replicate n ATick @ [ATick])
             = tick (exec ?b0 (replicate n ATick))"
    by (simp add: exec_def)
  have "bucketIndex ?b0 + n \<le> n" using b0 by simp
  from ticks_below_rollover[OF bn this] b0 bn
  have k: "bucketIndex (exec ?b0 (replicate n ATick)) = n"
    "state (exec ?b0 (replicate n ATick)) = STATE_OPEN"
    "forced (exec ?b0 (replicate n ATick)) = STATE_CLOSED"
    "bucketsNumber (exec ?b0 (replicate n ATick)) = Fin (int n)"
    by simp_all
  show ?thesis
    unfolding e using k by (simp add: tick_state tick_fields isOpen_def strict_eq_def)
qed

text \<open>
  C3 on the code. \<open>tick\<close> does not look at \<open>forced\<close>. On a new breaker with the
  default 10 buckets, \<open>open\<close> and then 11 ticks leave the override active (\<open>forced\<close>
  holds the closed state that \<open>open\<close> recorded, not \<^verbatim>\<open>null\<close>) and the state half open:
  the rollover moved the breaker that was forced open, where the claim says it does not.
\<close>

theorem forced_open_rolls_over_to_half_open:
  "forced (exec (CircuitBreaker default_options) (AOpen # replicate 11 ATick)) = STATE_CLOSED \<and>
   state (exec (CircuitBreaker default_options) (AOpen # replicate 11 ATick)) = STATE_HALF_OPEN \<and>
   \<not> isOpen (exec (CircuitBreaker default_options) (AOpen # replicate 11 ATick))"
proof -
  have n: "bucketsNumber (CircuitBreaker default_options) = Fin (int 10)"
    by (simp add: CircuitBreaker_eq default_options_def js_undefined_def positive_or_def)
  have "replicate 10 ATick @ [ATick] = replicate (Suc 10) ATick"
    by (simp only: replicate_append_same replicate_Suc)
  also have "Suc 10 = 11" by simp
  finally have "replicate 11 ATick = replicate 10 ATick @ [ATick]" by simp
  then have "AOpen # replicate 11 ATick = AOpen # replicate 10 ATick @ [ATick]"
    by simp
  then show ?thesis
    using forced_open_rollover_any[OF n] by (simp add: isOpen_def strict_eq_def)
qed

section \<open>The timeout timer of an invocation\<close>

lemma measure_cb_keeps_timer:
  "status_timeout st = None \<Longrightarrow>
   status_timer (fst (snd (measure_cb p st b))) = status_timer st \<and>
   live_timers (snd (snd (measure_cb p st b))) = live_timers b"
  by (auto simp: measure_cb_def getLastBucket_def updateState_def Let_def
      split: option.split prod.split)

lemma measure_cb_keeps_timeout:
  "status_timeout st = None \<Longrightarrow> status_timeout (fst (snd (measure_cb p st b))) = None"
  by (auto simp: measure_cb_def getLastBucket_def Let_def split: option.split prod.split)

lemma call_marks_keeps_timer:
  "status_timeout st = None \<Longrightarrow>
   status_timeout (fst (snd (call_marks ms st b))) = None \<and>
   status_timer (fst (snd (call_marks ms st b))) = status_timer st \<and>
   live_timers (snd (snd (call_marks ms st b))) = live_timers b"
proof (induction ms arbitrary: st b)
  case Nil
  then show ?case by simp
next
  case (Cons m ms)
  obtain r st' b' where m: "measure_cb (mark_prop m) st b = (r, st', b')"
    by (cases "measure_cb (mark_prop m) st b") auto
  have k: "status_timeout st' = None" "status_timer st' = status_timer st"
    "live_timers b' = live_timers b"
    using measure_cb_keeps_timeout[OF Cons.prems, of "mark_prop m" b]
      measure_cb_keeps_timer[OF Cons.prems, of "mark_prop m" b] m by simp_all
  show ?case using Cons.IH[OF k(1), of b'] m k by (cases r) auto
qed

text \<open>
  Whenever a timeout is in effect, per call or by default, the status record and the
  pending timers still hold the handle of the timeout timer when \<open>execute\<close> returns,
  whatever the command did.
\<close>

lemma execute_leaves_timer_pending:
  assumes "num_pos (positive_or t (cb_timeout b))"
  shows "status_timer (fst (snd (execute c t b))) = Some (next_handle b) \<and>
         live_timers (snd (snd (execute c t b))) = live_timers b @ [next_handle b]"
proof -
  let ?st1 = "\<lparr>status_done = False, status_timeout = None, status_timer = Some (next_handle b)\<rparr>"
  let ?b1 = "snd (setTimeout b)"
  let ?b2 = "?b1\<lparr>command_calls := command_calls ?b1 + 1\<rparr>"
  obtain r st2 b2 where cm: "call_marks (calls c) ?st1 ?b2 = (r, st2, b2)"
    by (cases "call_marks (calls c) ?st1 ?b2") auto
  have k: "status_timeout st2 = None" "status_timer st2 = Some (next_handle b)"
    "live_timers b2 = live_timers b @ [next_handle b]"
    using call_marks_keeps_timer[of ?st1 "calls c" ?b2] cm by (simp_all add: setTimeout_def)
  have ex: "execute c t b =
      (if r \<noteq> None \<or> throws c then measure_cb FAILURE st2 b2 else (None, st2, b2))"
    using assms cm
    by (auto simp: execute_def call_command_def setTimeout_def Let_def split: option.split)
  show ?thesis
    using k measure_cb_keeps_timer[OF k(1), of FAILURE b2] by (simp add: ex)
qed

text \<open>
  C5 on the code. \<open>execute\<close> stores the handle of the timeout timer in
  \<^verbatim>\<open>status.timer\<close>, and the callback clears the handle it finds in \<^verbatim>\<open>status.timeout\<close>,
  which nothing assigns. On a new breaker, \<open>run\<close> with a timeout of 100 and a command
  that reports success at once commits the measurement and leaves the handle 2 of the
  timeout timer in the status record and among the pending timers, where the claim says
  the commit cancels the timer.
\<close>

theorem timeout_timer_left_pending:
  "run (Command [MarkSuccess] False) None (js_integer 100) (CircuitBreaker default_options) =
     (None, Some \<lparr>status_done = True, status_timeout = None, status_timer = Some 2\<rparr>,
      (CircuitBreaker default_options)
        \<lparr>live_timers := [1, 2], next_handle := 3, command_calls := 1,
         buckets := [\<lparr>failure = 0, success = 1, timeout = 0, outage = 0\<rparr>]\<rparr>) \<and>
   2 \<in> set (live_timers (snd (snd
     (run (Command [MarkSuccess] False) None (js_integer 100) (CircuitBreaker default_options)))))"
proof -
  have r: "run (Command [MarkSuccess] False) None (js_integer 100) (CircuitBreaker default_options) =
     (None, Some \<lparr>status_done = True, status_timeout = None, status_timer = Some 2\<rparr>,
      (CircuitBreaker default_options)
        \<lparr>live_timers := [1, 2], next_handle := 3, command_calls := 1,
         buckets := [\<lparr>failure = 0, success = 1, timeout = 0, outage = 0\<rparr>]\<rparr>)"
    by (simp add: run_def isOpen_def strict_eq_def execute_def call_command_def positive_or_def
        setTimeout_def measure_cb_forced_eq CircuitBreaker_eq incr_last_def createBucket_def
        default_options_def js_integer_def js_undefined_def)
  show ?thesis unfolding r by simp
qed

end
